theory Spec2Isabelle
  imports Complex_Main "HOL-Library.Product_Lexorder"
begin

section \<open>Instants: Python's naive \<open>datetime\<close>\<close>

text \<open>
  The scripts work on naive \<open>datetime\<close> objects. Such an object is the tuple of its
  fields; two of them compare as these tuples do (field by field, year first), and
  their difference is a \<open>timedelta\<close>, an exact number of microseconds.
\<close>

datatype error = ValueError | IndexError | ZeroDivisionError

datatype datetime =
  Datetime (year: int) (month: int) (day: int) (hour: int) (minute: int) (second: int)
    (microsecond: int)

definition dt_tuple :: "datetime \<Rightarrow> int \<times> int \<times> int \<times> int \<times> int \<times> int \<times> int" where
  "dt_tuple d = (year d, month d, day d, hour d, minute d, second d, microsecond d)"

instantiation datetime :: linorder
begin

definition less_eq_datetime :: "datetime \<Rightarrow> datetime \<Rightarrow> bool" where
  "less_eq_datetime a b \<longleftrightarrow> dt_tuple a \<le> dt_tuple b"

definition less_datetime :: "datetime \<Rightarrow> datetime \<Rightarrow> bool" where
  "less_datetime a b \<longleftrightarrow> dt_tuple a < dt_tuple b"

instance
proof
  fix x y z :: datetime
  show "x < y \<longleftrightarrow> x \<le> y \<and> \<not> y \<le> x"
    unfolding less_eq_datetime_def less_datetime_def by (rule less_le_not_le)
  show "x \<le> x"
    unfolding less_eq_datetime_def by simp
  show "x \<le> y \<Longrightarrow> y \<le> z \<Longrightarrow> x \<le> z"
    unfolding less_eq_datetime_def by (rule order_trans)
  show "x \<le> y \<Longrightarrow> y \<le> x \<Longrightarrow> x = y"
  proof -
    assume "x \<le> y" and "y \<le> x"
    then have "dt_tuple x = dt_tuple y"
      unfolding less_eq_datetime_def by (rule antisym)
    then show "x = y"
      by (simp add: dt_tuple_def datetime.expand)
  qed
  show "x \<le> y \<or> y \<le> x"
    unfolding less_eq_datetime_def by (rule linear)
qed

end

text \<open>The calendar of \<open>datetime\<close>: the proleptic Gregorian calendar, years 1 to 9999.\<close>

definition is_leap :: "int \<Rightarrow> bool" where
  "is_leap y \<longleftrightarrow> y mod 4 = 0 \<and> (y mod 100 \<noteq> 0 \<or> y mod 400 = 0)"

definition days_before_year :: "int \<Rightarrow> int" where
  "days_before_year y = (y - 1) * 365 + (y - 1) div 4 - (y - 1) div 100 + (y - 1) div 400"

definition days_in_month :: "int \<Rightarrow> int \<Rightarrow> int" where
  "days_in_month y m =
     (if m = 2 then (if is_leap y then 29 else 28)
      else if m = 4 \<or> m = 6 \<or> m = 9 \<or> m = 11 then 30 else 31)"

definition days_before_month :: "int \<Rightarrow> int \<Rightarrow> int" where
  "days_before_month y m =
     [0, 31, 59, 90, 120, 151, 181, 212, 243, 273, 304, 334] ! nat (m - 1)
       + (if m > 2 \<and> is_leap y then 1 else 0)"

definition ymd2ord :: "int \<Rightarrow> int \<Rightarrow> int \<Rightarrow> int" where
  "ymd2ord y m d = days_before_year y + days_before_month y m + d"

definition valid_datetime :: "datetime \<Rightarrow> bool" where
  "valid_datetime d \<longleftrightarrow>
     1 \<le> year d \<and> year d \<le> 9999 \<and> 1 \<le> month d \<and> month d \<le> 12 \<and>
     1 \<le> day d \<and> day d \<le> days_in_month (year d) (month d) \<and>
     0 \<le> hour d \<and> hour d < 24 \<and> 0 \<le> minute d \<and> minute d < 60 \<and>
     0 \<le> second d \<and> second d < 60 \<and> 0 \<le> microsecond d \<and> microsecond d < 1000000"

text \<open>The constructor \<open>datetime(y, m, d, H, M, S, us)\<close> raises \<open>ValueError\<close> outside the calendar.\<close>

definition mk_datetime :: "int \<Rightarrow> int \<Rightarrow> int \<Rightarrow> int \<Rightarrow> int \<Rightarrow> int \<Rightarrow> int \<Rightarrow> error + datetime" where
  "mk_datetime y m d H M S us =
     (if valid_datetime (Datetime y m d H M S us) then Inr (Datetime y m d H M S us)
      else Inl ValueError)"

text \<open>
  \<open>a - b\<close> on datetimes: the days between the two ordinals, the seconds and the
  microseconds, held here as one number of microseconds; \<open>total_seconds\<close> turns it into
  seconds. Python's floats are modelled by the reals.
\<close>

definition to_us :: "datetime \<Rightarrow> int" where
  "to_us d =
     ((ymd2ord (year d) (month d) (day d) * 86400 + hour d * 3600 + minute d * 60 + second d)
        * 1000000 + microsecond d)"

definition dt_sub :: "datetime \<Rightarrow> datetime \<Rightarrow> int" where
  "dt_sub a b = to_us a - to_us b"

definition total_seconds :: "int \<Rightarrow> real" where
  "total_seconds us = real_of_int us / 1000000"

section \<open>Series and the volume integration\<close>

type_synonym series = "(datetime \<times> real) list"

text \<open>The first loop of \<open>calculate_volume\<close>: the last sample before the first one after \<open>start_time\<close>.\<close>

fun find_q :: "series \<Rightarrow> datetime \<Rightarrow> (datetime \<times> real) option \<Rightarrow> (datetime \<times> real) option" where
  "find_q [] start_time prev = prev"
| "find_q ((t, q) # rest) start_time prev =
     (if t > start_time then prev else find_q rest start_time (Some (t, q)))"

text \<open>The second loop: the walk that adds \<open>prev_q * dt\<close> until \<open>end_time\<close> is reached.\<close>

fun accumulate :: "series \<Rightarrow> datetime \<Rightarrow> datetime \<Rightarrow> real \<Rightarrow> real \<Rightarrow> real" where
  "accumulate [] end_time prev_time prev_q total_volume = total_volume"
| "accumulate ((t, q) # rest) end_time prev_time prev_q total_volume =
     (if t \<le> prev_time then accumulate rest end_time prev_time prev_q total_volume
      else if t \<ge> end_time then
        total_volume + prev_q * total_seconds (dt_sub end_time prev_time)
      else
        accumulate rest end_time t q
          (total_volume + prev_q * total_seconds (dt_sub t prev_time)))"

definition calculate_volume :: "series \<Rightarrow> datetime \<Rightarrow> datetime \<Rightarrow> real" where
  "calculate_volume data start_time end_time =
     (if data = [] then 0
      else if start_time = end_time then 0
      else
        let (start_time, end_time) =
              (if start_time > end_time then (end_time, start_time) else (start_time, end_time));
            data_start = fst (hd data);
            data_end = fst (last data)
        in
          if end_time \<le> data_start then 0
          else if start_time \<ge> data_end then 0
          else
            let start_time = (if start_time < data_start then data_start else start_time);
                end_time = (if end_time > data_end then data_end else end_time)
            in
              if start_time \<ge> end_time then 0
              else
                (case find_q data start_time None of
                   None \<Rightarrow> 0
                 | Some (prev_time, prev_q) \<Rightarrow>
                     let prev_time = (if prev_time < start_time then start_time else prev_time)
                     in accumulate data end_time prev_time prev_q 0))"

section \<open>Daily extremes\<close>

datatype date = Date (date_year: int) (date_month: int) (date_day: int)

definition date_of :: "datetime \<Rightarrow> date" where
  "date_of t = Date (year t) (month t) (day t)"

record day_extreme =
  ex_date :: date
  ex_min :: real
  ex_max :: real

text \<open>
  The loop state of \<open>get_daily_extremes\<close>: the results so far and the open day
  (\<open>current_day\<close>, \<open>day_min\<close>, \<open>day_max\<close>), \<open>None\<close> before the first sample in range.
\<close>

type_synonym extremes_state = "day_extreme list \<times> (date \<times> real \<times> real) option"

fun extremes_loop :: "series \<Rightarrow> datetime \<Rightarrow> datetime \<Rightarrow> extremes_state \<Rightarrow> extremes_state" where
  "extremes_loop [] start_time end_time st = st"
| "extremes_loop ((t, q) # rest) start_time end_time (results, cur) =
     (if t < start_time then extremes_loop rest start_time end_time (results, cur)
      else if t > end_time then (results, cur)
      else
        (case cur of
           None \<Rightarrow> extremes_loop rest start_time end_time (results, Some (date_of t, q, q))
         | Some (current_day, day_min, day_max) \<Rightarrow>
             if date_of t = current_day then
               extremes_loop rest start_time end_time
                 (results,
                  Some (current_day, (if q < day_min then q else day_min),
                        (if q > day_max then q else day_max)))
             else
               extremes_loop rest start_time end_time
                 (results @ [\<lparr>ex_date = current_day, ex_min = day_min, ex_max = day_max\<rparr>],
                  Some (date_of t, q, q))))"

definition get_daily_extremes :: "series \<Rightarrow> datetime \<Rightarrow> datetime \<Rightarrow> day_extreme list" where
  "get_daily_extremes data start_time end_time =
     (let (start_time, end_time) =
            (if start_time > end_time then (end_time, start_time) else (start_time, end_time))
      in
        (case extremes_loop data start_time end_time ([], None) of
           (results, None) \<Rightarrow> results
         | (results, Some (current_day, day_min, day_max)) \<Rightarrow>
             results @ [\<lparr>ex_date = current_day, ex_min = day_min, ex_max = day_max\<rparr>]))"

section \<open>Hydrologic years\<close>

definition hydro_year :: "datetime \<Rightarrow> int" where
  "hydro_year dt = (if month dt \<le> 10 then year dt else year dt + 1)"

record year_volume =
  hy_year :: int
  interval_start :: datetime
  interval_end :: datetime
  volume_m3 :: real

text \<open>
  The loop of \<open>compute_hydrologic_year_volumes\<close> over \<open>range(first_hy, last_hy + 1)\<close>.
  The two \<open>datetime(...)\<close> calls raise \<open>ValueError\<close> for a year outside the calendar,
  which ends the function.
\<close>

fun hydro_loop ::
  "series \<Rightarrow> datetime \<Rightarrow> datetime \<Rightarrow> int list \<Rightarrow> year_volume list \<Rightarrow> error + year_volume list" where
  "hydro_loop data start_time end_time [] results = Inr results"
| "hydro_loop data start_time end_time (y # ys) results =
     (case mk_datetime (y - 1) 11 1 0 0 0 0 of
        Inl err \<Rightarrow> Inl err
      | Inr hydro_start \<Rightarrow>
          (case mk_datetime y 10 31 23 59 59 0 of
             Inl err \<Rightarrow> Inl err
           | Inr hydro_end \<Rightarrow>
               let interval_start = max start_time hydro_start;
                   interval_end = min end_time hydro_end
               in
                 if interval_start \<ge> interval_end then
                   hydro_loop data start_time end_time ys results
                 else
                   hydro_loop data start_time end_time ys
                     (results @
                       [\<lparr>hy_year = y, interval_start = interval_start,
                         interval_end = interval_end,
                         volume_m3 = calculate_volume data interval_start interval_end\<rparr>])))"

definition compute_hydrologic_year_volumes ::
  "series \<Rightarrow> datetime \<Rightarrow> datetime \<Rightarrow> error + year_volume list" where
  "compute_hydrologic_year_volumes data start_time end_time =
     (let (start_time, end_time) =
            (if start_time > end_time then (end_time, start_time) else (start_time, end_time));
          first_hy = hydro_year start_time;
          last_hy = hydro_year end_time
      in hydro_loop data start_time end_time [first_hy..last_hy] [])"

section \<open>The lookup table\<close>

text \<open>Python's list indexing: a negative index counts from the end, out of range raises.\<close>

definition py_index :: "'a list \<Rightarrow> int \<Rightarrow> error + 'a" where
  "py_index xs i =
     (if 0 \<le> i then
        (if i < int (length xs) then Inr (xs ! nat i) else Inl IndexError)
      else
        (if - int (length xs) \<le> i then Inr (xs ! nat (int (length xs) + i))
         else Inl IndexError))"

text \<open>\<open>bisect.bisect_left\<close> of the standard library: the binary search for the leftmost insertion point.\<close>

function bisect_loop :: "real list \<Rightarrow> real \<Rightarrow> nat \<Rightarrow> nat \<Rightarrow> nat" where
  "bisect_loop a x lo hi =
     (if lo < hi then
        (let mid = (lo + hi) div 2
         in if a ! mid < x then bisect_loop a x (mid + 1) hi else bisect_loop a x lo mid)
      else lo)"
  by pat_completeness auto
termination
  by (relation "measure (\<lambda>(a, x, lo, hi). hi - lo)") auto

declare bisect_loop.simps [simp del]

definition bisect_left :: "real list \<Rightarrow> real \<Rightarrow> nat" where
  "bisect_left a x = bisect_loop a x 0 (length a)"

text \<open>
  \<open>load_table_2col\<close>, from the rows of the file already read as pairs of numbers (the
  reading of the file and of its decimal commas is left out): the columns, reordered by
  the stable sort of the row indices on \<open>x\<close>. No size of the table is refused.
\<close>

definition load_table_2col :: "(real \<times> real) list \<Rightarrow> real list \<times> real list" where
  "load_table_2col rows =
     (let xs = map fst rows;
          ys = map snd rows;
          order = sort_key (\<lambda>i. xs ! i) [0..<length xs]
      in (map (\<lambda>i. xs ! i) order, map (\<lambda>i. ys ! i) order))"

definition interp :: "real \<Rightarrow> real list \<Rightarrow> real list \<Rightarrow> error + real" where
  "interp x xs ys =
     (case py_index xs 0 of
        Inl err \<Rightarrow> Inl err
      | Inr x_first \<Rightarrow>
          if x \<le> x_first then py_index ys 0
          else
            (case py_index xs (- 1) of
               Inl err \<Rightarrow> Inl err
             | Inr x_last \<Rightarrow>
                 if x \<ge> x_last then py_index ys (- 1)
                 else
                   (let i = int (bisect_left xs x)
                    in case py_index xs (i - 1) of
                         Inl err \<Rightarrow> Inl err
                       | Inr x0 \<Rightarrow>
                     (case py_index ys (i - 1) of
                         Inl err \<Rightarrow> Inl err
                       | Inr y0 \<Rightarrow>
                     (case py_index xs i of
                         Inl err \<Rightarrow> Inl err
                       | Inr x1 \<Rightarrow>
                     (case py_index ys i of
                         Inl err \<Rightarrow> Inl err
                       | Inr y1 \<Rightarrow>
                           if x1 - x0 = 0 then Inl ZeroDivisionError
                           else Inr (y0 + (x - x0) / (x1 - x0) * (y1 - y0))))))))"

text \<open>\<open>lerp_with_bisect\<close> of \<open>linear_interpolation.py\<close>: the same bracket on the two-point table.\<close>

definition lerp_with_bisect :: "real \<Rightarrow> real \<Rightarrow> real \<Rightarrow> real \<Rightarrow> real \<Rightarrow> error + real" where
  "lerp_with_bisect x0 x1 y0 y1 x =
     (let xs = [x0, x1];
          idx = int (bisect_left xs x);
          i0 = idx - 1;
          i1 = idx
      in case py_index xs i0 of
           Inl err \<Rightarrow> Inl err
         | Inr x_start \<Rightarrow>
             (case py_index xs i1 of
                Inl err \<Rightarrow> Inl err
              | Inr x_end \<Rightarrow>
                  if x_end - x_start = 0 then Inl ZeroDivisionError
                  else Inr (y0 + (x - x_start) / (x_end - x_start) * (y1 - y0))))"

text \<open>
  \<open>interp\<close> above computes with exact real numbers. The code computes with floats, whose
  operations round. \<open>interp_in\<close> is the same function with the four operations of its
  last two lines (\<open>-\<close>, \<open>/\<close>, \<open>*\<close>, \<open>+\<close>) taken as parameters, so that what is proved
  of it for every choice of them holds of the code in its own arithmetic; comparisons
  are exact on floats as on reals. With the exact operations it is \<open>interp\<close>.
\<close>

record arith =
  fsub :: "real \<Rightarrow> real \<Rightarrow> real"
  fdiv :: "real \<Rightarrow> real \<Rightarrow> real"
  fmul :: "real \<Rightarrow> real \<Rightarrow> real"
  fadd :: "real \<Rightarrow> real \<Rightarrow> real"

definition exact_arith :: arith where
  "exact_arith = \<lparr>fsub = (-), fdiv = (/), fmul = (*), fadd = (+)\<rparr>"

definition interp_in :: "arith \<Rightarrow> real \<Rightarrow> real list \<Rightarrow> real list \<Rightarrow> error + real" where
  "interp_in A x xs ys =
     (case py_index xs 0 of
        Inl err \<Rightarrow> Inl err
      | Inr x_first \<Rightarrow>
          if x \<le> x_first then py_index ys 0
          else
            (case py_index xs (- 1) of
               Inl err \<Rightarrow> Inl err
             | Inr x_last \<Rightarrow>
                 if x \<ge> x_last then py_index ys (- 1)
                 else
                   (let i = int (bisect_left xs x)
                    in case py_index xs (i - 1) of
                         Inl err \<Rightarrow> Inl err
                       | Inr x0 \<Rightarrow>
                     (case py_index ys (i - 1) of
                         Inl err \<Rightarrow> Inl err
                       | Inr y0 \<Rightarrow>
                     (case py_index xs i of
                         Inl err \<Rightarrow> Inl err
                       | Inr x1 \<Rightarrow>
                     (case py_index ys i of
                         Inl err \<Rightarrow> Inl err
                       | Inr y1 \<Rightarrow>
                           if fsub A x1 x0 = 0 then Inl ZeroDivisionError
                           else
                             Inr (fadd A y0
                                    (fmul A (fdiv A (fsub A x x0) (fsub A x1 x0))
                                       (fsub A y1 y0)))))))))"

section \<open>The step function of a series\<close>

text \<open>
  The sum the spec gives for the full span: \<open>value[i] * (t[i+1] - t[i])\<close> in seconds, over
  all consecutive pairs of samples.
\<close>

fun pair_sum :: "series \<Rightarrow> real" where
  "pair_sum ((t1, q1) # (t2, q2) # rest) =
     q1 * total_seconds (dt_sub t2 t1) + pair_sum ((t2, q2) # rest)"
| "pair_sum [x] = 0"
| "pair_sum [] = 0"

text \<open>
  The same sum with every timestamp cut off at \<open>\<tau>\<close>: the integral of the step function
  from the first sample up to \<open>\<tau>\<close>.
\<close>

fun step_integral :: "series \<Rightarrow> datetime \<Rightarrow> real" where
  "step_integral ((t1, q1) # (t2, q2) # rest) \<tau> =
     q1 * total_seconds (dt_sub (min t2 \<tau>) (min t1 \<tau>)) + step_integral ((t2, q2) # rest) \<tau>"
| "step_integral [x] \<tau> = 0"
| "step_integral [] \<tau> = 0"

text \<open>Samples that share a timestamp share their value.\<close>

definition ties_agree :: "series \<Rightarrow> bool" where
  "ties_agree data \<longleftrightarrow> (\<forall>x\<in>set data. \<forall>y\<in>set data. fst x = fst y \<longrightarrow> snd x = snd y)"

text \<open>Example series: ten minutes of samples, without and with two samples at one instant.\<close>

definition plain_series :: series where
  "plain_series =
     [(Datetime 2000 1 1 0 0 0 0, 10), (Datetime 2000 1 1 0 5 0 0, 20),
      (Datetime 2000 1 1 0 10 0 0, 0)]"

definition agreeing_series :: series where
  "agreeing_series =
     [(Datetime 2000 1 1 0 0 0 0, 10), (Datetime 2000 1 1 0 5 0 0, 20),
      (Datetime 2000 1 1 0 5 0 0, 20), (Datetime 2000 1 1 0 10 0 0, 0)]"

definition tied_series :: series where
  "tied_series =
     [(Datetime 2000 1 1 0 0 0 0, 1), (Datetime 2000 1 1 0 5 0 0, 2),
      (Datetime 2000 1 1 0 5 0 0, 3), (Datetime 2000 1 1 0 10 0 0, 4)]"

section \<open>Notions used to state the properties\<close>

text \<open>
  The interval normalisation as the spec words it (section 4.2): \<open>None\<close> is the spec's
  Empty. The code has no such function; \<open>calculate_volume\<close> does these steps inline.
\<close>

definition normalize :: "series \<Rightarrow> datetime \<Rightarrow> datetime \<Rightarrow> (datetime \<times> datetime) option" where
  "normalize data start_time end_time =
     (if start_time = end_time then None
      else
        let (s, e) =
              (if start_time > end_time then (end_time, start_time) else (start_time, end_time));
            span_start = fst (hd data);
            span_end = fst (last data)
        in
          if e \<le> span_start \<or> s \<ge> span_end then None
          else
            let s = max s span_start; e = min e span_end
            in if s \<ge> e then None else Some (s, e))"

text \<open>
  Two series with the same timestamps that agree on the value of every sample before
  \<open>e\<close>: they may differ in the values of the samples at or beyond \<open>e\<close>.
\<close>

definition same_before :: "datetime \<Rightarrow> series \<Rightarrow> series \<Rightarrow> bool" where
  "same_before e data data' \<longleftrightarrow>
     list_all2 (\<lambda>x y. fst x = fst y \<and> (fst x < e \<longrightarrow> snd x = snd y)) data data'"

definition altered_series :: series where
  "altered_series =
     [(Datetime 2000 1 1 0 0 0 0, 10), (Datetime 2000 1 1 0 5 0 0, 99),
      (Datetime 2000 1 1 0 10 0 0, 7)]"

text \<open>One pass of the body of the loop of \<open>get_daily_extremes\<close> on a sample in range.\<close>

fun extremes_step :: "datetime \<Rightarrow> real \<Rightarrow> extremes_state \<Rightarrow> extremes_state" where
  "extremes_step t q (results, None) = (results, Some (date_of t, q, q))"
| "extremes_step t q (results, Some (current_day, day_min, day_max)) =
     (if date_of t = current_day then
        (results, Some (current_day, (if q < day_min then q else day_min),
                        (if q > day_max then q else day_max)))
      else
        (results @ [\<lparr>ex_date = current_day, ex_min = day_min, ex_max = day_max\<rparr>],
         Some (date_of t, q, q)))"

text \<open>The value \<open>q\<close> lies between the minimum and the maximum held for the day \<open>d\<close>.\<close>

definition covers :: "extremes_state \<Rightarrow> date \<Rightarrow> real \<Rightarrow> bool" where
  "covers st d q \<longleftrightarrow>
     (\<exists>r\<in>set (fst st). ex_date r = d \<and> ex_min r \<le> q \<and> q \<le> ex_max r) \<or>
     (\<exists>mn mx. snd st = Some (d, mn, mx) \<and> mn \<le> q \<and> q \<le> mx)"

text \<open>
  The bounds of the hydrologic year \<open>N\<close>, the values of \<open>hydro_start\<close> and \<open>hydro_end\<close>
  in the loop, and what the loop emits for a year that meets the interval.
\<close>

definition hydro_start :: "int \<Rightarrow> datetime" where
  "hydro_start N = Datetime (N - 1) 11 1 0 0 0 0"

definition hydro_end :: "int \<Rightarrow> datetime" where
  "hydro_end N = Datetime N 10 31 23 59 59 0"

definition hydro_overlap :: "datetime \<Rightarrow> datetime \<Rightarrow> int \<Rightarrow> bool" where
  "hydro_overlap lo hi N \<longleftrightarrow> max lo (hydro_start N) < min hi (hydro_end N)"

definition hydro_result :: "series \<Rightarrow> datetime \<Rightarrow> datetime \<Rightarrow> int \<Rightarrow> year_volume" where
  "hydro_result data lo hi N =
     \<lparr>hy_year = N, interval_start = max lo (hydro_start N),
      interval_end = min hi (hydro_end N),
      volume_m3 = calculate_volume data (max lo (hydro_start N)) (min hi (hydro_end N))\<rparr>"

definition hydro_results :: "series \<Rightarrow> datetime \<Rightarrow> datetime \<Rightarrow> year_volume list" where
  "hydro_results data lo hi =
     map (hydro_result data lo hi)
       (filter (hydro_overlap lo hi) [hydro_year lo..hydro_year hi])"

text \<open>The instant \<open>t\<close> lies in one of the emitted intervals, ends included.\<close>

definition covered :: "year_volume list \<Rightarrow> datetime \<Rightarrow> bool" where
  "covered rs t \<longleftrightarrow> (\<exists>r\<in>set rs. interval_start r \<le> t \<and> t \<le> interval_end r)"

text \<open>Example series: two samples of value 1, three years apart.\<close>

definition long_series :: series where
  "long_series = [(Datetime 1975 1 1 0 0 0 0, 1), (Datetime 1978 1 1 0 0 0 0, 1)]"

section \<open>Comparing concrete instants\<close>

lemma Datetime_le_iff:
  "Datetime y m d H M S u \<le> Datetime y' m' d' H' M' S' u' \<longleftrightarrow>
     (y, m, d, H, M, S, u) \<le> (y', m', d', H', M', S', u')"
  by (simp add: less_eq_datetime_def dt_tuple_def)

lemma Datetime_less_iff:
  "Datetime y m d H M S u < Datetime y' m' d' H' M' S' u' \<longleftrightarrow>
     (y, m, d, H, M, S, u) < (y', m', d', H', M', S', u')"
  by (simp add: less_datetime_def dt_tuple_def)

section \<open>Empty series\<close>

text \<open>
  C10. On the empty series both computations return without an error, for every
  interval: the volume is 0 and the sequence of daily extremes is empty.
\<close>

theorem empty_series_total:
  "calculate_volume [] start_time end_time = 0 \<and> get_daily_extremes [] start_time end_time = []"
  by (simp add: calculate_volume_def get_daily_extremes_def)

section \<open>Degenerate and out-of-range intervals\<close>

text \<open>
  C9. On a non-empty series a degenerate or fully out-of-range interval is no error:
  the volume over \<open>(t, t)\<close> is 0 for any instant \<open>t\<close>, and once the interval is
  put in order, the volume is 0 when its end is at or before the first timestamp or its
  start is at or after the last one. (The function has no raising path at all: its
  result is a number on every input.)
\<close>

theorem degenerate_interval_zero:
  "data \<noteq> [] \<Longrightarrow>
     calculate_volume data t t = 0 \<and>
     (max start_time end_time \<le> fst (hd data) \<or> fst (last data) \<le> min start_time end_time
        \<longrightarrow> calculate_volume data start_time end_time = 0)"
  by (auto simp: calculate_volume_def Let_def max_def min_def split: if_splits)

theorem degenerate_interval_zero_witness:
  "[(Datetime 2000 1 1 0 0 0 0, 10 :: real), (Datetime 2000 1 2 0 0 0 0, 20)] \<noteq> [] \<and>
   calculate_volume [(Datetime 2000 1 1 0 0 0 0, 10), (Datetime 2000 1 2 0 0 0 0, 20)]
     (Datetime 2000 1 1 12 0 0 0) (Datetime 2000 1 1 12 0 0 0) = 0 \<and>
   calculate_volume [(Datetime 2000 1 1 0 0 0 0, 10), (Datetime 2000 1 2 0 0 0 0, 20)]
     (Datetime 1999 6 1 0 0 0 0) (Datetime 1999 1 1 0 0 0 0) = 0"
  using degenerate_interval_zero
    [where data = "[(Datetime 2000 1 1 0 0 0 0, 10), (Datetime 2000 1 2 0 0 0 0, 20)]"
       and start_time = "Datetime 1999 6 1 0 0 0 0" and end_time = "Datetime 1999 1 1 0 0 0 0"
       and t = "Datetime 2000 1 1 12 0 0 0"]
  by (simp add: Datetime_le_iff Datetime_less_iff)

section \<open>The lookup table: size, bracket, clamping\<close>

text \<open>
  C3, as the spec has it, fails on the code: a table of one pair is built and
  evaluated without any error.
\<close>

theorem one_pair_table_counterexample:
  "load_table_2col [(1, 2)] = ([1], [2]) \<and> interp 5 [1] [2] = Inr 2"
  by (simp add: load_table_2col_def interp_def py_index_def)

text \<open>
  C3, amended. No table error exists in the code. Building a table never fails on
  its size; evaluating the table built from a single pair \<open>(a, b)\<close> returns \<open>b\<close> at
  every query \<open>x\<close>; evaluating the table built from no pair fails at every query with
  the \<open>IndexError\<close> of \<open>xs[0]\<close>.
\<close>

theorem small_table_evaluation:
  "interp x (fst (load_table_2col [])) (snd (load_table_2col [])) = Inl IndexError \<and>
   interp x (fst (load_table_2col [(a, b)])) (snd (load_table_2col [(a, b)])) = Inr b"
  by (simp add: load_table_2col_def interp_def py_index_def)

subsection \<open>The binary search\<close>

lemma bisect_loop_spec:
  "sorted a \<Longrightarrow> lo \<le> hi \<Longrightarrow> hi \<le> length a \<Longrightarrow>
   (\<forall>j<lo. a ! j < x) \<Longrightarrow> (\<forall>j. hi \<le> j \<and> j < length a \<longrightarrow> x \<le> a ! j) \<Longrightarrow>
   lo \<le> bisect_loop a x lo hi \<and> bisect_loop a x lo hi \<le> hi \<and>
   (\<forall>j<bisect_loop a x lo hi. a ! j < x) \<and>
   (\<forall>j. bisect_loop a x lo hi \<le> j \<and> j < length a \<longrightarrow> x \<le> a ! j)"
proof (induction a x lo hi rule: bisect_loop.induct)
  case (1 a x lo hi)
  show ?case
  proof (cases "lo < hi")
    case False
    then have "bisect_loop a x lo hi = lo"
      by (subst bisect_loop.simps) simp
    moreover have "lo = hi" using False "1.prems"(2) by simp
    ultimately show ?thesis using "1.prems" by simp
  next
    case True
    define mid where "mid = (lo + hi) div 2"
    have mid: "lo \<le> mid" "mid < hi" using True by (simp_all add: mid_def)
    show ?thesis
    proof (cases "a ! mid < x")
      case lt: True
      have below: "\<forall>j<mid + 1. a ! j < x"
      proof (intro allI impI)
        fix j assume "j < mid + 1"
        then have "j \<le> mid" by simp
        moreover have "mid < length a" using mid "1.prems" by simp
        ultimately have "a ! j \<le> a ! mid" using \<open>sorted a\<close> by (simp add: sorted_nth_mono)
        then show "a ! j < x" using lt by simp
      qed
      have eq: "bisect_loop a x lo hi = bisect_loop a x (mid + 1) hi"
        using True lt by (subst bisect_loop.simps) (simp add: mid_def Let_def)
      have "mid + 1 \<le> bisect_loop a x (mid + 1) hi \<and> bisect_loop a x (mid + 1) hi \<le> hi \<and>
            (\<forall>j<bisect_loop a x (mid + 1) hi. a ! j < x) \<and>
            (\<forall>j. bisect_loop a x (mid + 1) hi \<le> j \<and> j < length a \<longrightarrow> x \<le> a ! j)"
        using "1.IH"(1)[OF True mid_def lt \<open>sorted a\<close> _ \<open>hi \<le> length a\<close> below] mid "1.prems"(5)
        by simp
      then show ?thesis using eq mid by simp
    next
      case ge: False
      have above: "\<forall>j. mid \<le> j \<and> j < length a \<longrightarrow> x \<le> a ! j"
      proof (intro allI impI)
        fix j assume j: "mid \<le> j \<and> j < length a"
        then have "a ! mid \<le> a ! j" using \<open>sorted a\<close> by (simp add: sorted_nth_mono)
        then show "x \<le> a ! j" using ge by simp
      qed
      have eq: "bisect_loop a x lo hi = bisect_loop a x lo mid"
        using True ge by (subst bisect_loop.simps) (simp add: mid_def Let_def)
      have "mid \<le> length a" using mid "1.prems" by simp
      then have "lo \<le> bisect_loop a x lo mid \<and> bisect_loop a x lo mid \<le> mid \<and>
            (\<forall>j<bisect_loop a x lo mid. a ! j < x) \<and>
            (\<forall>j. bisect_loop a x lo mid \<le> j \<and> j < length a \<longrightarrow> x \<le> a ! j)"
        using "1.IH"(2)[OF True mid_def ge \<open>sorted a\<close> mid(1) _ "1.prems"(4) above]
        by simp
      then show ?thesis using eq mid by simp
    qed
  qed
qed

lemma bisect_left_spec:
  assumes "sorted a"
  shows "bisect_left a x \<le> length a"
    and "\<forall>j<bisect_left a x. a ! j < x"
    and "\<forall>j. bisect_left a x \<le> j \<and> j < length a \<longrightarrow> x \<le> a ! j"
  using bisect_loop_spec[of a 0 "length a" x] assms
  by (simp_all add: bisect_left_def)

lemma bisect_left_interior:
  assumes "sorted xs" "xs \<noteq> []" "xs ! 0 < x" "x \<le> last xs"
  shows "1 \<le> bisect_left xs x" "bisect_left xs x < length xs"
    "xs ! (bisect_left xs x - 1) < x" "x \<le> xs ! bisect_left xs x"
proof -
  let ?i = "bisect_left xs x"
  note sp = bisect_left_spec[OF assms(1), of x]
  have len: "0 < length xs" using assms(2) by simp
  show 1: "1 \<le> ?i"
  proof (rule ccontr)
    assume "\<not> 1 \<le> ?i"
    then have "?i = 0" by simp
    then have "x \<le> xs ! 0" using sp(3) len by simp
    then show False using assms(3) by simp
  qed
  show 2: "?i < length xs"
  proof (rule ccontr)
    assume "\<not> ?i < length xs"
    then have "length xs - 1 < ?i" using len by linarith
    then have "xs ! (length xs - 1) < x" using sp(2) by blast
    then show False using assms(2,4) by (simp add: last_conv_nth)
  qed
  show "xs ! (?i - 1) < x" using sp(2) 1 by simp
  show "x \<le> xs ! ?i" using sp(3) 2 by simp
qed

text \<open>The steps of the search as conditional equations, for evaluating it on a given table.\<close>

lemma bisect_loop_stop: "\<not> lo < hi \<Longrightarrow> bisect_loop a x lo hi = lo"
  by (subst bisect_loop.simps) simp

lemma bisect_loop_right:
  "lo < hi \<Longrightarrow> a ! ((lo + hi) div 2) < x \<Longrightarrow>
     bisect_loop a x lo hi = bisect_loop a x ((lo + hi) div 2 + 1) hi"
  by (subst bisect_loop.simps) (simp add: Let_def)

lemma bisect_loop_left:
  "lo < hi \<Longrightarrow> \<not> a ! ((lo + hi) div 2) < x \<Longrightarrow>
     bisect_loop a x lo hi = bisect_loop a x lo ((lo + hi) div 2)"
  by (subst bisect_loop.simps) (simp add: Let_def)

lemmas bisect_eval = bisect_left_def bisect_loop_stop bisect_loop_right bisect_loop_left

subsection \<open>Interpolation inside the table\<close>

lemma interp_interior:
  assumes "sorted xs" "length ys = length xs" "2 \<le> length xs" "xs ! 0 < x" "x < last xs"
  shows "1 \<le> bisect_left xs x \<and> bisect_left xs x < length xs \<and>
         xs ! (bisect_left xs x - 1) < xs ! bisect_left xs x \<and>
         interp x xs ys =
           Inr (ys ! (bisect_left xs x - 1) +
                (x - xs ! (bisect_left xs x - 1)) /
                  (xs ! bisect_left xs x - xs ! (bisect_left xs x - 1)) *
                (ys ! bisect_left xs x - ys ! (bisect_left xs x - 1)))"
proof -
  let ?i = "bisect_left xs x"
  have ne: "xs \<noteq> []" using assms(3) by auto
  have le: "x \<le> last xs" using assms(5) by simp
  note b = bisect_left_interior[OF assms(1) ne assms(4) le]
  have lt: "xs ! (?i - 1) < xs ! ?i" using b(3,4) by simp
  have i1: "nat (int ?i - 1) = ?i - 1" using b(1) by simp
  have last: "xs ! nat (int (length xs) - 1) = last xs"
    using ne by (simp add: last_conv_nth nat_diff_distrib')
  have "interp x xs ys =
          Inr (ys ! (?i - 1) +
               (x - xs ! (?i - 1)) / (xs ! ?i - xs ! (?i - 1)) * (ys ! ?i - ys ! (?i - 1)))"
    using assms(2,4,5) b(1,2) lt ne
    by (simp add: interp_def py_index_def Let_def i1 last)
  then show ?thesis using b lt by simp
qed


lemma lerp_with_bisect_interior:
  "x0 < x \<Longrightarrow> x < x1 \<Longrightarrow>
     lerp_with_bisect x0 x1 y0 y1 x = Inr (y0 + (x - x0) / (x1 - x0) * (y1 - y0))"
  using interp_interior[of "[x0, x1]" "[y0, y1]" x]
  by (simp add: lerp_with_bisect_def interp_def py_index_def Let_def split: if_splits)

text \<open>
  C7. For a table of at least two pairs sorted by \<open>x\<close> ascending and a query \<open>x\<close>
  strictly inside its domain, the index \<open>i\<close> found by the leftmost binary search has
  both neighbours in the table, the bracket satisfies \<open>xs[i-1] < xs[i]\<close> strictly, and
  \<open>interp\<close> returns the interpolated value: the division never divides by zero.
\<close>

theorem interp_bracket_strict:
  assumes "sorted xs" "length ys = length xs" "2 \<le> length xs" "xs ! 0 < x" "x < last xs"
  shows "1 \<le> bisect_left xs x \<and> bisect_left xs x < length xs \<and>
         xs ! (bisect_left xs x - 1) < xs ! bisect_left xs x \<and>
         interp x xs ys =
           Inr (ys ! (bisect_left xs x - 1) +
                (x - xs ! (bisect_left xs x - 1)) /
                  (xs ! bisect_left xs x - xs ! (bisect_left xs x - 1)) *
                (ys ! bisect_left xs x - ys ! (bisect_left xs x - 1)))"
  using assms by (rule interp_interior)

theorem interp_bracket_strict_witness:
  "sorted [0.28, 0.5 :: real] \<and> length [0.25, 0.39 :: real] = length [0.28, 0.5 :: real] \<and>
   2 \<le> length [0.28, 0.5 :: real] \<and> [0.28, 0.5 :: real] ! 0 < 0.3 \<and>
   (0.3 :: real) < last [0.28, 0.5] \<and> bisect_left [0.28, 0.5] 0.3 = 1 \<and>
   interp 0.3 [0.28, 0.5] [0.25, 0.39] =
     Inr (0.25 + (0.3 - 0.28) / (0.5 - 0.28) * (0.39 - 0.25))"
  using interp_bracket_strict[of "[0.28, 0.5]" "[0.25, 0.39]" "0.3"]
  by (simp add: bisect_left_def)



subsection \<open>Clamping and the table's own points\<close>

text \<open>
  C6, as the spec has it, fails on the code when two pairs share an \<open>x\<close>: in the
  table built from \<open>(0,0), (1,10), (1,20), (2,30)\<close>, evaluating at \<open>xs[2] = 1\<close> gives
  \<open>10\<close>, the \<open>y\<close> of the first of the two tied pairs, and not \<open>ys[2] = 20\<close>.
\<close>

theorem tied_table_counterexample:
  "load_table_2col [(0, 0), (1, 10), (1, 20), (2, 30)] = ([0, 1, 1, 2], [0, 10, 20, 30]) \<and>
   sorted [0, 1, 1, 2 :: real] \<and>
   interp ([0, 1, 1, 2] ! 2) [0, 1, 1, 2] [0, 10, 20, 30] = Inr 10 \<and>
   [0, 10, 20, 30 :: real] ! 2 = 20"
  by (simp add: load_table_2col_def upt_rec interp_def py_index_def bisect_eval)

lemma interp_in_exact: "interp_in exact_arith x xs ys = interp x xs ys"
  by (simp add: interp_in_def interp_def exact_arith_def Let_def split: sum.split)

lemma interp_in_interior:
  assumes "sorted xs" "length ys = length xs" "2 \<le> length xs" "xs ! 0 < x" "x < last xs"
  shows "interp_in A x xs ys =
           (if fsub A (xs ! bisect_left xs x) (xs ! (bisect_left xs x - 1)) = 0
            then Inl ZeroDivisionError
            else Inr (fadd A (ys ! (bisect_left xs x - 1))
                   (fmul A
                      (fdiv A (fsub A x (xs ! (bisect_left xs x - 1)))
                         (fsub A (xs ! bisect_left xs x) (xs ! (bisect_left xs x - 1))))
                      (fsub A (ys ! bisect_left xs x) (ys ! (bisect_left xs x - 1))))))"
proof -
  let ?i = "bisect_left xs x"
  have ne: "xs \<noteq> []" using assms(3) by auto
  have le: "x \<le> last xs" using assms(5) by simp
  note b = bisect_left_interior[OF assms(1) ne assms(4) le]
  have i1: "nat (int ?i - 1) = ?i - 1" using b(1) by simp
  have last: "xs ! nat (int (length xs) - 1) = last xs"
    using ne by (simp add: last_conv_nth nat_diff_distrib')
  show ?thesis
    using assms(2,4,5) b(1,2) ne
    by (simp add: interp_in_def py_index_def Let_def i1 last)
qed

lemma bisect_left_at_node:
  assumes "sorted xs" "i < length xs" "\<forall>j<length xs. xs ! j = xs ! i \<longrightarrow> j = i"
  shows "bisect_left xs (xs ! i) = i"
proof -
  let ?k = "bisect_left xs (xs ! i)"
  note sp = bisect_left_spec[OF assms(1), of "xs ! i"]
  have "\<not> i < ?k" using sp(2) by auto
  then have ki: "?k \<le> i" by simp
  have "xs ! i \<le> xs ! ?k" using sp(3) ki assms(2) by simp
  moreover have "xs ! ?k \<le> xs ! i" using assms(1) ki assms(2) by (simp add: sorted_nth_mono)
  ultimately have "xs ! ?k = xs ! i" by simp
  then show ?thesis using assms(3) ki assms(2) by simp
qed

lemma interp_in_at_node:
  assumes "sorted xs" "length ys = length xs" "2 \<le> length xs"
    and i: "i < length xs" and uniq: "\<forall>j<length xs. xs ! j = xs ! i \<longrightarrow> j = i"
    and m: "0 < i \<and> i < length xs - 1"
  shows "bisect_left xs (xs ! i) = i \<and>
       interp_in A (xs ! i) xs ys =
         (if fsub A (xs ! i) (xs ! (i - 1)) = 0 then Inl ZeroDivisionError
          else Inr (fadd A (ys ! (i - 1))
                 (fmul A
                    (fdiv A (fsub A (xs ! i) (xs ! (i - 1))) (fsub A (xs ! i) (xs ! (i - 1))))
                    (fsub A (ys ! i) (ys ! (i - 1))))))"
proof -
  have ne: "xs \<noteq> []" using assms(3) by auto
  have "xs ! 0 \<le> xs ! i" using assms(1) i by (simp add: sorted_nth_mono)
  moreover have "xs ! 0 \<noteq> xs ! i" using uniq m ne by force
  ultimately have first: "xs ! 0 < xs ! i" by simp
  have l: "length xs - 1 < length xs" using ne by simp
  have "xs ! i \<le> xs ! (length xs - 1)" using assms(1) i by (simp add: sorted_nth_mono)
  moreover have "xs ! (length xs - 1) \<noteq> xs ! i" using uniq m l by (metis less_irrefl)
  ultimately have lt: "xs ! i < last xs" using ne by (simp add: last_conv_nth)
  have k: "bisect_left xs (xs ! i) = i" using bisect_left_at_node[OF assms(1) i uniq] .
  show ?thesis using interp_in_interior[OF assms(1,2,3) first lt, of A] k by simp
qed

text \<open>
  C6, amended. For a table of at least two pairs sorted by \<open>x\<close> ascending, and in
  whatever arithmetic the four operations are carried out: \<open>interp\<close> returns \<open>ys[0]\<close>
  for \<open>x \<le> xs[0]\<close> and \<open>ys[-1]\<close> for \<open>x \<ge> xs[-1]\<close> (when \<open>x\<close> is above \<open>xs[0]\<close>,
  the first test having priority). At an index \<open>i\<close> whose \<open>x\<close> occurs only once in
  the table: if \<open>i\<close> is the first or the last index, \<open>interp\<close> returns \<open>ys[i]\<close> at
  \<open>xs[i]\<close>, by these two tests; if \<open>i\<close> is in between, the leftmost search returns
  \<open>i\<close>, the bracket is the pairs \<open>i - 1\<close> and \<open>i\<close>, and \<open>interp\<close> returns at
  \<open>xs[i]\<close> the computed value of \<open>ys[i-1] + (d / d) * (ys[i] - ys[i-1])\<close> with
  \<open>d = xs[i] - xs[i-1]\<close> (a \<open>ZeroDivisionError\<close> if \<open>d\<close> is computed as 0). That
  this value is \<open>ys[i]\<close> is not part of the statement: it depends on the arithmetic.
\<close>

theorem interp_clamp_and_node_bracket:
  assumes "sorted xs" "length ys = length xs" "2 \<le> length xs"
  shows "(x \<le> xs ! 0 \<longrightarrow> interp_in A x xs ys = Inr (ys ! 0)) \<and>
         (xs ! 0 < x \<and> last xs \<le> x \<longrightarrow> interp_in A x xs ys = Inr (last ys)) \<and>
         (\<forall>i<length xs. (\<forall>j<length xs. xs ! j = xs ! i \<longrightarrow> j = i) \<longrightarrow>
            (i = 0 \<or> i = length xs - 1 \<longrightarrow> interp_in A (xs ! i) xs ys = Inr (ys ! i)) \<and>
            (0 < i \<and> i < length xs - 1 \<longrightarrow>
               bisect_left xs (xs ! i) = i \<and>
               interp_in A (xs ! i) xs ys =
                 (if fsub A (xs ! i) (xs ! (i - 1)) = 0 then Inl ZeroDivisionError
                  else Inr (fadd A (ys ! (i - 1))
                         (fmul A
                            (fdiv A (fsub A (xs ! i) (xs ! (i - 1)))
                               (fsub A (xs ! i) (xs ! (i - 1))))
                            (fsub A (ys ! i) (ys ! (i - 1))))))))"
proof -
  have ne: "xs \<noteq> []" "ys \<noteq> []" using assms(2,3) by auto
  have lastx: "xs ! nat (int (length xs) - 1) = last xs"
    using ne by (simp add: last_conv_nth nat_diff_distrib')
  have lasty: "ys ! nat (int (length xs) - 1) = last ys"
    using ne assms(2) by (simp add: last_conv_nth nat_diff_distrib')
  have lo: "interp_in A x xs ys = Inr (ys ! 0)" if "x \<le> xs ! 0" for x
    using that ne assms(2) by (simp add: interp_in_def py_index_def)
  have hi: "interp_in A x xs ys = Inr (last ys)" if "xs ! 0 < x" "last xs \<le> x" for x
    using that ne assms(2,3) by (simp add: interp_in_def py_index_def lastx lasty)
  have ends: "interp_in A (xs ! i) xs ys = Inr (ys ! i)"
    if i: "i < length xs" and uniq: "\<forall>j<length xs. xs ! j = xs ! i \<longrightarrow> j = i"
      and e: "i = 0 \<or> i = length xs - 1" for i
  proof (cases "i = 0")
    case True
    then show ?thesis using lo[of "xs ! i"] by simp
  next
    case False
    then have il: "i = length xs - 1" using e by simp
    have "xs ! 0 \<le> xs ! i" using assms(1) i by (simp add: sorted_nth_mono)
    moreover have "xs ! 0 \<noteq> xs ! i" using uniq False ne by force
    ultimately have first: "xs ! 0 < xs ! i" by simp
    have "last xs \<le> xs ! i" using il ne by (simp add: last_conv_nth)
    then have "interp_in A (xs ! i) xs ys = Inr (last ys)" using hi first by simp
    then show ?thesis using il ne assms(2) by (simp add: last_conv_nth)
  qed
  have inner: "bisect_left xs (xs ! i) = i \<and>
       interp_in A (xs ! i) xs ys =
         (if fsub A (xs ! i) (xs ! (i - 1)) = 0 then Inl ZeroDivisionError
          else Inr (fadd A (ys ! (i - 1))
                 (fmul A
                    (fdiv A (fsub A (xs ! i) (xs ! (i - 1))) (fsub A (xs ! i) (xs ! (i - 1))))
                    (fsub A (ys ! i) (ys ! (i - 1))))))"
    if "i < length xs" and "\<forall>j<length xs. xs ! j = xs ! i \<longrightarrow> j = i"
      and "0 < i \<and> i < length xs - 1" for i
    using interp_in_at_node[OF assms that] .
  show ?thesis using lo hi ends inner by blast
qed

theorem interp_clamp_and_node_bracket_witness:
  "sorted [1, 2, 4 :: real] \<and> length [10, 20, 40 :: real] = length [1, 2, 4 :: real] \<and>
   2 \<le> length [1, 2, 4 :: real] \<and>
   interp_in exact_arith 0 [1, 2, 4] [10, 20, 40] = Inr 10 \<and>
   interp_in exact_arith 5 [1, 2, 4] [10, 20, 40] = Inr 40 \<and>
   bisect_left [1, 2, 4] 2 = 1 \<and>
   interp_in exact_arith 2 [1, 2, 4] [10, 20, 40] = Inr (10 + (2 - 1) / (2 - 1) * (20 - 10))"
proof -
  have h: "sorted [1, 2, 4 :: real]" "length [10, 20, 40 :: real] = length [1, 2, 4 :: real]"
    "2 \<le> length [1, 2, 4 :: real]" by simp_all
  note t = interp_clamp_and_node_bracket[OF h, of _ exact_arith]
  have a: "interp_in exact_arith 0 [1, 2, 4] [10, 20, 40] = Inr 10" using t[of 0] by simp
  have b: "interp_in exact_arith 5 [1, 2, 4] [10, 20, 40] = Inr 40" using t[of 5] by simp
  have u: "\<forall>j<length [1, 2, 4 :: real]. [1, 2, 4 :: real] ! j = [1, 2, 4] ! 1 \<longrightarrow> j = 1"
    by (auto simp: nth_Cons' split: if_splits)
  have i: "1 < length [1, 2, 4 :: real]" "0 < (1::nat) \<and> 1 < length [1, 2, 4 :: real] - 1"
    by simp_all
  from t[of 0] u i have
    "bisect_left [1, 2, 4] ([1, 2, 4] ! 1) = 1 \<and>
     interp_in exact_arith ([1, 2, 4] ! 1) [1, 2, 4] [10, 20, 40] =
       (if fsub exact_arith ([1, 2, 4] ! 1) ([1, 2, 4] ! (1 - 1)) = 0 then Inl ZeroDivisionError
        else Inr (fadd exact_arith ([10, 20, 40] ! (1 - 1))
               (fmul exact_arith
                  (fdiv exact_arith (fsub exact_arith ([1, 2, 4] ! 1) ([1, 2, 4] ! (1 - 1)))
                     (fsub exact_arith ([1, 2, 4] ! 1) ([1, 2, 4] ! (1 - 1))))
                  (fsub exact_arith ([10, 20, 40] ! 1) ([10, 20, 40] ! (1 - 1))))))"
    by blast
  then have c: "bisect_left [1, 2, 4] 2 = 1 \<and>
      interp_in exact_arith 2 [1, 2, 4] [10, 20, 40] = Inr (10 + (2 - 1) / (2 - 1) * (20 - 10))"
    by (simp add: exact_arith_def)
  show ?thesis using h a b c by simp
qed


text \<open>
  With exact arithmetic the value at such an index is \<open>ys[i]\<close>; and whenever
  \<open>d / d\<close> is computed as 1 and \<open>1 * z\<close> as \<open>z\<close>, it is the computed value of
  \<open>ys[i-1] + (ys[i] - ys[i-1])\<close>, which in floating point need not be \<open>ys[i]\<close>.
\<close>

lemma interp_exact_clamp_and_nodes:
  assumes "sorted xs" "length ys = length xs" "2 \<le> length xs"
  shows "(x \<le> xs ! 0 \<longrightarrow> interp x xs ys = Inr (ys ! 0)) \<and>
         (xs ! 0 < x \<and> last xs \<le> x \<longrightarrow> interp x xs ys = Inr (last ys)) \<and>
         (\<forall>i<length xs. (\<forall>j<length xs. xs ! j = xs ! i \<longrightarrow> j = i) \<longrightarrow>
            interp (xs ! i) xs ys = Inr (ys ! i))"
proof -
  have ne: "xs \<noteq> []" "ys \<noteq> []" using assms(2,3) by auto
  have lastx: "xs ! nat (int (length xs) - 1) = last xs"
    using ne by (simp add: last_conv_nth nat_diff_distrib')
  have lasty: "ys ! nat (int (length xs) - 1) = last ys"
    using ne assms(2) by (simp add: last_conv_nth nat_diff_distrib')
  have lo: "interp x xs ys = Inr (ys ! 0)" if "x \<le> xs ! 0" for x
    using that ne assms(2) by (simp add: interp_def py_index_def)
  have hi: "interp x xs ys = Inr (last ys)" if "xs ! 0 < x" "last xs \<le> x" for x
    using that ne assms(2,3) by (simp add: interp_def py_index_def lastx lasty)
  have node: "interp (xs ! i) xs ys = Inr (ys ! i)"
    if i: "i < length xs" and uniq: "\<forall>j<length xs. xs ! j = xs ! i \<longrightarrow> j = i" for i
  proof (cases "i = 0")
    case True
    then show ?thesis using lo[of "xs ! i"] by simp
  next
    case False
    have "xs ! 0 \<le> xs ! i" using assms(1) i by (simp add: sorted_nth_mono)
    moreover have "xs ! 0 \<noteq> xs ! i" using uniq False ne by force
    ultimately have first: "xs ! 0 < xs ! i" by simp
    show ?thesis
    proof (cases "i = length xs - 1")
      case True
      then have "last xs \<le> xs ! i" using ne by (simp add: last_conv_nth)
      then have "interp (xs ! i) xs ys = Inr (last ys)" using hi first by simp
      then show ?thesis using True ne assms(2) by (simp add: last_conv_nth)
    next
      case notlast: False
      have l: "length xs - 1 < length xs" using ne by simp
      have "xs ! i \<le> xs ! (length xs - 1)" using assms(1) i by (simp add: sorted_nth_mono)
      moreover have "xs ! (length xs - 1) \<noteq> xs ! i" using uniq notlast l by metis
      ultimately have lt: "xs ! i < last xs" using ne by (simp add: last_conv_nth)
      let ?k = "bisect_left xs (xs ! i)"
      note ii = interp_interior[OF assms first lt]
      note sp = bisect_left_spec[OF assms(1), of "xs ! i"]
      have "\<not> i < ?k" using sp(2) by auto
      then have ki: "?k \<le> i" by simp
      have "xs ! i \<le> xs ! ?k" using sp(3) ki i by simp
      moreover have "xs ! ?k \<le> xs ! i" using assms(1) ki i by (simp add: sorted_nth_mono)
      ultimately have "xs ! ?k = xs ! i" by simp
      then have k: "?k = i" using uniq ki i by simp
      have "xs ! (i - 1) < xs ! i" using ii k by simp
      then show ?thesis using ii k by simp
    qed
  qed
  show ?thesis using lo hi node by blast
qed

lemma interp_in_node_unit_weight:
  assumes "sorted xs" "length ys = length xs" "2 \<le> length xs"
    and "i < length xs" "\<forall>j<length xs. xs ! j = xs ! i \<longrightarrow> j = i" "0 < i" "i < length xs - 1"
    and "\<forall>d. d \<noteq> 0 \<longrightarrow> fdiv A d d = 1" "\<forall>z. fmul A 1 z = z"
    and "fsub A (xs ! i) (xs ! (i - 1)) \<noteq> 0"
  shows "interp_in A (xs ! i) xs ys = Inr (fadd A (ys ! (i - 1)) (fsub A (ys ! i) (ys ! (i - 1))))"
proof -
  have "0 < i \<and> i < length xs - 1" using assms(6,7) by simp
  then have "interp_in A (xs ! i) xs ys =
         (if fsub A (xs ! i) (xs ! (i - 1)) = 0 then Inl ZeroDivisionError
          else Inr (fadd A (ys ! (i - 1))
                 (fmul A
                    (fdiv A (fsub A (xs ! i) (xs ! (i - 1))) (fsub A (xs ! i) (xs ! (i - 1))))
                    (fsub A (ys ! i) (ys ! (i - 1))))))"
    using interp_in_at_node[OF assms(1,2,3,4,5)] by blast
  then show ?thesis using assms(8,9,10) by simp
qed

section \<open>The volume as an integral of the step function\<close>

lemmas dt_eval = Datetime_le_iff Datetime_less_iff total_seconds_def dt_sub_def to_us_def
  ymd2ord_def days_before_year_def days_before_month_def is_leap_def

lemma total_seconds_self [simp]: "total_seconds (dt_sub a a) = 0"
  by (simp add: total_seconds_def dt_sub_def)

lemma total_seconds_diff:
  "total_seconds (dt_sub a c) - total_seconds (dt_sub b c) = total_seconds (dt_sub a b)"
  by (simp add: total_seconds_def dt_sub_def diff_divide_distrib)

lemma step_integral_below:
  "sorted (map fst data) \<Longrightarrow> data \<noteq> [] \<Longrightarrow> \<tau> \<le> fst (hd data) \<Longrightarrow> step_integral data \<tau> = 0"
proof (induction data \<tau> rule: step_integral.induct)
  case (1 t1 q1 t2 q2 rest \<tau>)
  then have "\<tau> \<le> t1" "t1 \<le> t2" by simp_all
  then have "min t1 \<tau> = \<tau>" "min t2 \<tau> = \<tau>" by (auto simp: min_def)
  moreover have "step_integral ((t2, q2) # rest) \<tau> = 0"
    using 1 \<open>\<tau> \<le> t1\<close> \<open>t1 \<le> t2\<close> by simp
  ultimately show ?case by simp
qed simp_all

lemma step_integral_above:
  "sorted (map fst data) \<Longrightarrow> data \<noteq> [] \<Longrightarrow> fst (last data) \<le> \<tau> \<Longrightarrow>
     step_integral data \<tau> = pair_sum data"
proof (induction data \<tau> rule: step_integral.induct)
  case (1 t1 q1 t2 q2 rest \<tau>)
  have "t2 \<le> fst (last ((t2, q2) # rest))"
    using "1.prems"(1) by (cases rest) (auto simp: last_conv_nth)
  moreover have "t1 \<le> t2" using "1.prems" by simp
  ultimately have "t2 \<le> \<tau>" "t1 \<le> \<tau>" using "1.prems"(3) by simp_all
  then have "min t1 \<tau> = t1" "min t2 \<tau> = t2" by (auto simp: min_def)
  moreover have "step_integral ((t2, q2) # rest) \<tau> = pair_sum ((t2, q2) # rest)"
    using 1 by simp
  ultimately show ?case by simp
qed simp_all


lemma ties_agree_tl: "ties_agree (x # xs) \<Longrightarrow> ties_agree xs"
  unfolding ties_agree_def by (meson list.set_intros(2))

lemma ties_agree_same: "ties_agree ((t, q) # (t, q') # xs) \<Longrightarrow> q = q'"
  unfolding ties_agree_def by (metis fst_conv snd_conv list.set_intros)

lemma ties_agree_fresh:
  assumes "ties_agree xs" "\<forall>z\<in>set xs. fst z \<noteq> a"
  shows "ties_agree ((a, v) # xs)"
  unfolding ties_agree_def
proof (intro ballI impI)
  fix x y assume x: "x \<in> set ((a, v) # xs)" and y: "y \<in> set ((a, v) # xs)" and e: "fst x = fst y"
  show "snd x = snd y"
  proof (cases "x = (a, v)")
    case True
    then have "y = (a, v)" using y e assms(2) by (cases "y = (a, v)") auto
    then show ?thesis using True by simp
  next
    case False
    then have xs: "x \<in> set xs" using x by simp
    then have "y \<noteq> (a, v)" using e assms(2) by auto
    then have "y \<in> set xs" using y by simp
    then show ?thesis using assms(1) xs e unfolding ties_agree_def by blast
  qed
qed

lemma accumulate_step_integral:
  "sorted (map fst ((pt, pq) # data)) \<Longrightarrow> ties_agree ((pt, pq) # data) \<Longrightarrow> pt < e \<Longrightarrow>
     accumulate data e pt pq tot = tot + step_integral ((pt, pq) # data) e"
proof (induction data arbitrary: pt pq tot)
  case Nil
  then show ?case by simp
next
  case (Cons x data)
  obtain t q where x: "x = (t, q)" by (cases x)
  have le: "pt \<le> t" using Cons.prems(1) x by simp
  have srt: "sorted (map fst ((t, q) # data))" using Cons.prems(1) x by simp
  have ties: "ties_agree ((t, q) # data)" using Cons.prems(2) x ties_agree_tl by blast
  show ?case
  proof (cases "t \<le> pt")
    case True
    then have tp: "t = pt" using le by simp
    then have qp: "q = pq" using Cons.prems(2) x ties_agree_same by blast
    have "sorted (map fst ((pt, pq) # data))" using srt tp by simp
    moreover have "ties_agree ((pt, pq) # data)" using ties tp qp by simp
    ultimately have "accumulate data e pt pq tot = tot + step_integral ((pt, pq) # data) e"
      using Cons.IH Cons.prems(3) by blast
    then show ?thesis using x tp qp by simp
  next
    case False
    show ?thesis
    proof (cases "e \<le> t")
      case True
      have "step_integral ((t, q) # data) e = 0"
        using step_integral_below[OF srt] True by simp
      moreover have "min t e = e" "min pt e = pt" using True Cons.prems(3) by (auto simp: min_def)
      ultimately show ?thesis using x False True by simp
    next
      case nb: False
      then have "t < e" by simp
      then have "accumulate data e t q (tot + pq * total_seconds (dt_sub t pt)) =
                 tot + pq * total_seconds (dt_sub t pt) + step_integral ((t, q) # data) e"
        using Cons.IH srt ties by blast
      moreover have "min t e = t" "min pt e = pt" using nb Cons.prems(3) by (auto simp: min_def)
      ultimately show ?thesis using x False nb by simp
    qed
  qed
qed

lemma anchor_step_integral:
  "sorted (map fst ((p0, q0) # data)) \<Longrightarrow> ties_agree ((p0, q0) # data) \<Longrightarrow> p0 \<le> a \<Longrightarrow> a < b \<Longrightarrow>
     \<exists>ta qa. find_q data a (Some (p0, q0)) = Some (ta, qa) \<and> ta \<le> a \<and>
       accumulate data b a qa tot =
         tot + step_integral ((p0, q0) # data) b - step_integral ((p0, q0) # data) a"
proof (induction data arbitrary: p0 q0)
  case Nil
  then show ?case by simp
next
  case (Cons x data)
  obtain t q where x: "x = (t, q)" by (cases x)
  have le: "p0 \<le> t" using Cons.prems(1) x by simp
  have srt: "sorted (map fst ((t, q) # data))" using Cons.prems(1) x by simp
  have ties: "ties_agree ((t, q) # data)" using Cons.prems(2) x ties_agree_tl by blast
  show ?case
  proof (cases "a < t")
    case True
    have s1: "sorted (map fst ((a, q0) # (t, q) # data))" using srt True by auto
    have "\<forall>z\<in>set ((t, q) # data). fst z \<noteq> a"
      using srt True by auto
    then have t1: "ties_agree ((a, q0) # (t, q) # data)"
      using ties ties_agree_fresh by blast
    have acc: "accumulate ((t, q) # data) b a q0 tot = tot + step_integral ((a, q0) # (t, q) # data) b"
      using accumulate_step_integral[OF s1 t1 \<open>a < b\<close>] .
    have below: "step_integral ((t, q) # data) a = 0"
      using step_integral_below[OF srt] True by simp
    have m: "min t a = a" "min p0 a = p0" "min a b = a" "min p0 b = p0"
      using True Cons.prems(3,4) by (auto simp: min_def)
    have "step_integral ((p0, q0) # (t, q) # data) b - step_integral ((p0, q0) # (t, q) # data) a
          = q0 * (total_seconds (dt_sub (min t b) p0) - total_seconds (dt_sub a p0))
            + step_integral ((t, q) # data) b"
      using below m by (simp add: algebra_simps)
    also have "\<dots> = q0 * total_seconds (dt_sub (min t b) a) + step_integral ((t, q) # data) b"
      by (simp add: total_seconds_diff)
    also have "\<dots> = step_integral ((a, q0) # (t, q) # data) b" using m by simp
    finally have "accumulate ((t, q) # data) b a q0 tot =
        tot + step_integral ((p0, q0) # (t, q) # data) b - step_integral ((p0, q0) # (t, q) # data) a"
      using acc by simp
    then show ?thesis using x True Cons.prems(3) by simp
  next
    case False
    then have ta: "t \<le> a" by simp
    obtain ta' qa where fq: "find_q data a (Some (t, q)) = Some (ta', qa)" and "ta' \<le> a"
      and acc: "accumulate data b a qa tot =
         tot + step_integral ((t, q) # data) b - step_integral ((t, q) # data) a"
      using Cons.IH[OF srt ties ta Cons.prems(4)] by blast
    have m: "min t a = t" "min p0 a = p0" "min t b = t" "min p0 b = p0"
      using ta le Cons.prems(3,4) by (auto simp: min_def)
    have "step_integral ((p0, q0) # (t, q) # data) b - step_integral ((p0, q0) # (t, q) # data) a
          = step_integral ((t, q) # data) b - step_integral ((t, q) # data) a"
      using m by simp
    then show ?thesis using x False ta fq \<open>ta' \<le> a\<close> acc by simp
  qed
qed


lemma calculate_volume_ordered:
  assumes "data \<noteq> []" "s < e"
  shows "calculate_volume data s e =
           (if e \<le> fst (hd data) \<or> fst (last data) \<le> s then 0
            else if min e (fst (last data)) \<le> max s (fst (hd data)) then 0
            else (case find_q data (max s (fst (hd data))) None of
                    None \<Rightarrow> 0
                  | Some (prev_time, prev_q) \<Rightarrow>
                      accumulate data (min e (fst (last data)))
                        (max prev_time (max s (fst (hd data)))) prev_q 0))"
proof -
  have a: "(if s < fst (hd data) then fst (hd data) else s) = max s (fst (hd data))"
    by (auto simp: max_def)
  have b: "(if fst (last data) < e then fst (last data) else e) = min e (fst (last data))"
    by (auto simp: min_def)
  have c: "(if p < x then x else p) = max p x" for p x :: datetime
    by (auto simp: max_def)
  have ne: "s \<noteq> e" "\<not> e < s" using assms(2) by auto
  show ?thesis
    unfolding calculate_volume_def using assms(1) ne
    by (simp add: Let_def a b c split: option.split prod.split)
qed

lemma calculate_volume_swap: "calculate_volume data s e = calculate_volume data e s"
proof (cases "s = e")
  case True
  then show ?thesis by simp
next
  case False
  then consider "s < e" | "e < s" by (meson linorder_neqE)
  then show ?thesis
  proof cases
    case 1
    then have "\<not> e < s" "s \<noteq> e" "e \<noteq> s" by auto
    then show ?thesis using 1 unfolding calculate_volume_def by simp
  next
    case 2
    then have "\<not> s < e" "s \<noteq> e" "e \<noteq> s" by auto
    then show ?thesis using 2 unfolding calculate_volume_def by simp
  qed
qed


lemma sorted_hd_le_last:
  "sorted (map fst data) \<Longrightarrow> data \<noteq> [] \<Longrightarrow> fst (hd data) \<le> fst (last data)"
  by (cases data) (auto simp: last_conv_nth dest: nth_mem)

lemma calculate_volume_ordered_integral:
  assumes srt: "sorted (map fst data)" and ties: "ties_agree data" and ne: "data \<noteq> []"
    and se: "s < e"
  shows "calculate_volume data s e = step_integral data e - step_integral data s"
proof -
  let ?first = "fst (hd data)" and ?last = "fst (last data)"
  let ?a = "max s ?first" and ?b = "min e ?last"
  have fl: "?first \<le> ?last" using sorted_hd_le_last[OF srt ne] .
  have below: "step_integral data x = 0" if "x \<le> ?first" for x
    using step_integral_below[OF srt ne that] .
  have above: "step_integral data x = pair_sum data" if "?last \<le> x" for x
    using step_integral_above[OF srt ne that] .
  have sa: "step_integral data ?a = step_integral data s"
  proof (cases "s \<le> ?first")
    case True
    then have "?a = ?first" by (simp add: max_def)
    then show ?thesis using below[of s] below[of ?first] True by simp
  next
    case False
    then show ?thesis by (simp add: max_def)
  qed
  have eb: "step_integral data ?b = step_integral data e"
  proof (cases "?last \<le> e")
    case True
    then have "?b = ?last" by (simp add: min_def)
    then show ?thesis using above[of e] above[of ?last] True by simp
  next
    case False
    then show ?thesis by (auto simp: min_def)
  qed
  show ?thesis
  proof (cases "e \<le> ?first \<or> ?last \<le> s")
    case True
    then show ?thesis
    proof
      assume "e \<le> ?first"
      then have "step_integral data e = 0" "step_integral data s = 0"
        using below[of e] below[of s] se by auto
      then show ?thesis using calculate_volume_ordered[OF ne se] \<open>e \<le> ?first\<close> by simp
    next
      assume "?last \<le> s"
      then have "step_integral data e = pair_sum data" "step_integral data s = pair_sum data"
        using above[of e] above[of s] se by auto
      then show ?thesis using calculate_volume_ordered[OF ne se] \<open>?last \<le> s\<close> by simp
    qed
  next
    case out: False
    then have ab: "?a \<le> ?b" using fl se by (auto simp: max_def min_def)
    show ?thesis
    proof (cases "?b \<le> ?a")
      case True
      then have "?a = ?b" using ab by simp
      then have "step_integral data e = step_integral data s" using sa eb by simp
      then show ?thesis using calculate_volume_ordered[OF ne se] out True by simp
    next
      case False
      then have lt: "?a < ?b" by (simp only: not_le)
      obtain t0 q0 rest where d: "data = (t0, q0) # rest" using ne by (cases data) auto
      have t0a: "t0 \<le> ?a" using d by simp
      have s0: "sorted (map fst ((t0, q0) # rest))" using srt d by simp
      have ti0: "ties_agree ((t0, q0) # rest)" using ties d by simp
      obtain ta qa where fq: "find_q rest ?a (Some (t0, q0)) = Some (ta, qa)" and ta: "ta \<le> ?a"
        and acc: "accumulate rest ?b ?a qa 0 =
                    0 + step_integral ((t0, q0) # rest) ?b - step_integral ((t0, q0) # rest) ?a"
        using anchor_step_integral[OF s0 ti0 t0a lt, of 0] by blast
      have f1: "find_q data ?a None = Some (ta, qa)" using d fq t0a by simp
      have m: "max ta ?a = ?a" using ta by (simp add: max_def)
      have "accumulate data ?b ?a qa 0 = accumulate rest ?b ?a qa 0" using d t0a by simp
      then have "calculate_volume data s e = step_integral data ?b - step_integral data ?a"
        using calculate_volume_ordered[OF ne se] out False f1 m acc d by simp
      then show ?thesis using sa eb by simp
    qed
  qed
qed

lemma calculate_volume_integral:
  assumes "sorted (map fst data)" "ties_agree data" "data \<noteq> []"
  shows "calculate_volume data s e = step_integral data (max s e) - step_integral data (min s e)"
proof -
  consider "s = e" | "s < e" | "e < s" by (meson linorder_neqE)
  then show ?thesis
  proof cases
    case 1
    then show ?thesis by (simp add: calculate_volume_def)
  next
    case 2
    then have "max s e = e" "min s e = s" by (auto simp: max_def min_def)
    then show ?thesis using calculate_volume_ordered_integral[OF assms 2] by simp
  next
    case 3
    then have "calculate_volume data s e = step_integral data s - step_integral data e"
      using calculate_volume_ordered_integral[OF assms 3] calculate_volume_swap[of data s e] by simp
    moreover have "max s e = s" "min s e = e" using 3 by (auto simp: max_def min_def)
    ultimately show ?thesis by simp
  qed
qed



subsection \<open>The full span\<close>

text \<open>
  C2, as the spec has it, fails on the code when two samples inside the span share a
  timestamp and differ in value: the walk skips the second of them
  (\<open>t <= prev_time\<close>), so the first one's value is held, where the sum over pairs
  holds the second one's.
\<close>

theorem full_span_tie_counterexample:
  "sorted (map fst tied_series) \<and>
   calculate_volume tied_series (fst (hd tied_series)) (fst (last tied_series)) = 900 \<and>
   pair_sum tied_series = 1200"
  by (simp add: tied_series_def calculate_volume_def dt_eval)

text \<open>
  C2, amended. For every non-empty series sorted by timestamp in which samples that
  share a timestamp share their value (so for every series with strictly increasing
  timestamps), the volume over the full span, from the first to the last timestamp,
  equals the sum of \<open>value[i] * (t[i+1] - t[i])\<close> in seconds over all consecutive pairs.
\<close>

theorem full_span_volume:
  assumes "sorted (map fst data)" "ties_agree data" "data \<noteq> []"
  shows "calculate_volume data (fst (hd data)) (fst (last data)) = pair_sum data"
proof -
  have fl: "fst (hd data) \<le> fst (last data)" using sorted_hd_le_last assms(1,3) by blast
  then have "max (fst (hd data)) (fst (last data)) = fst (last data)"
    "min (fst (hd data)) (fst (last data)) = fst (hd data)" by (auto simp: max_def min_def)
  moreover have "step_integral data (fst (last data)) = pair_sum data"
    using step_integral_above[OF assms(1,3)] by simp
  moreover have "step_integral data (fst (hd data)) = 0"
    using step_integral_below[OF assms(1,3)] by simp
  ultimately show ?thesis using calculate_volume_integral[OF assms] by simp
qed

theorem full_span_volume_witness:
  "sorted (map fst agreeing_series) \<and> ties_agree agreeing_series \<and> agreeing_series \<noteq> [] \<and>
   calculate_volume agreeing_series (Datetime 2000 1 1 0 0 0 0) (Datetime 2000 1 1 0 10 0 0) = 9000 \<and>
   pair_sum agreeing_series = 9000"
  using full_span_volume[of agreeing_series]
  by (simp add: agreeing_series_def ties_agree_def dt_eval)

subsection \<open>Additivity\<close>

text \<open>
  C5, as the spec has it, fails on the code for the same reason: started at the shared
  timestamp, the integration takes the value of the last of the tied samples; walking
  through it, the value of the first.
\<close>

theorem additivity_tie_counterexample:
  "sorted (map fst tied_series) \<and>
   fst (hd tied_series) \<le> Datetime 2000 1 1 0 0 0 0 \<and>
   Datetime 2000 1 1 0 0 0 0 < Datetime 2000 1 1 0 5 0 0 \<and>
   Datetime 2000 1 1 0 5 0 0 < Datetime 2000 1 1 0 10 0 0 \<and>
   Datetime 2000 1 1 0 10 0 0 \<le> fst (last tied_series) \<and>
   calculate_volume tied_series (Datetime 2000 1 1 0 0 0 0) (Datetime 2000 1 1 0 5 0 0) = 300 \<and>
   calculate_volume tied_series (Datetime 2000 1 1 0 5 0 0) (Datetime 2000 1 1 0 10 0 0) = 900 \<and>
   calculate_volume tied_series (Datetime 2000 1 1 0 0 0 0) (Datetime 2000 1 1 0 10 0 0) = 900"
  by (simp add: tied_series_def calculate_volume_def dt_eval)

text \<open>
  C5, amended. For every non-empty series sorted by timestamp in which samples that
  share a timestamp share their value (so for every series with strictly increasing
  timestamps) and all instants \<open>a < b < c\<close> within the span of the series, the volume
  over \<open>(a, b)\<close> plus the volume over \<open>(b, c)\<close> is the volume over \<open>(a, c)\<close>,
  exactly, time differences and values being real numbers.
\<close>

theorem volume_additive:
  assumes "sorted (map fst data)" "ties_agree data" "data \<noteq> []"
    and "fst (hd data) \<le> a" "a < b" "b < c" "c \<le> fst (last data)"
  shows "calculate_volume data a b + calculate_volume data b c = calculate_volume data a c"
proof -
  have "a < c" using assms(5,6) by simp
  then show ?thesis
    using calculate_volume_ordered_integral[OF assms(1,2,3)] assms(5,6) by simp
qed

theorem volume_additive_witness:
  "sorted (map fst plain_series) \<and> ties_agree plain_series \<and> plain_series \<noteq> [] \<and>
   fst (hd plain_series) \<le> Datetime 2000 1 1 0 1 0 0 \<and>
   Datetime 2000 1 1 0 1 0 0 < Datetime 2000 1 1 0 6 0 0 \<and>
   Datetime 2000 1 1 0 6 0 0 < Datetime 2000 1 1 0 9 0 0 \<and>
   Datetime 2000 1 1 0 9 0 0 \<le> fst (last plain_series) \<and>
   calculate_volume plain_series (Datetime 2000 1 1 0 1 0 0) (Datetime 2000 1 1 0 6 0 0) = 3600 \<and>
   calculate_volume plain_series (Datetime 2000 1 1 0 6 0 0) (Datetime 2000 1 1 0 9 0 0) = 3600 \<and>
   calculate_volume plain_series (Datetime 2000 1 1 0 1 0 0) (Datetime 2000 1 1 0 9 0 0) = 7200"
  using volume_additive[of plain_series "Datetime 2000 1 1 0 1 0 0" "Datetime 2000 1 1 0 6 0 0"
      "Datetime 2000 1 1 0 9 0 0"]
  by (simp add: plain_series_def ties_agree_def calculate_volume_def dt_eval)

section \<open>Inclusive end of the scan, exclusive end of the integration\<close>

lemma extremes_loop_Cons:
  "extremes_loop ((t, q) # rest) s e st =
     (if t < s then extremes_loop rest s e st
      else if t > e then st
      else extremes_loop rest s e (extremes_step t q st))"
  by (cases "(t, q, st)" rule: extremes_step.cases) simp_all

lemma covers_step_keeps: "covers st d q \<Longrightarrow> covers (extremes_step t' q' st) d q"
  by (cases "(t', q', st)" rule: extremes_step.cases) (auto simp: covers_def)

lemma covers_step_takes: "covers (extremes_step t q st) (date_of t) q"
  by (cases "(t, q, st)" rule: extremes_step.cases) (auto simp: covers_def)

lemma extremes_loop_keeps: "covers st d q \<Longrightarrow> covers (extremes_loop data s e st) d q"
proof (induction data arbitrary: st)
  case Nil
  then show ?case by simp
next
  case (Cons x data)
  obtain t' q' where x: "x = (t', q')" by (cases x)
  show ?case
    unfolding x extremes_loop_Cons
    using Cons.IH[OF Cons.prems] Cons.IH[OF covers_step_keeps[OF Cons.prems]] Cons.prems
    by simp
qed

lemma extremes_loop_takes:
  "sorted (map fst data) \<Longrightarrow> (t, q) \<in> set data \<Longrightarrow> s \<le> t \<Longrightarrow> t \<le> e \<Longrightarrow>
     covers (extremes_loop data s e st) (date_of t) q"
proof (induction data arbitrary: st)
  case Nil
  then show ?case by simp
next
  case (Cons x data)
  obtain t' q' where x: "x = (t', q')" by (cases x)
  have srt: "sorted (map fst data)" using Cons.prems(1) by simp
  show ?case
  proof (cases "x = (t, q)")
    case True
    moreover have "\<not> t < s" "\<not> e < t" using Cons.prems(3,4) by (simp_all add: not_less)
    ultimately have "extremes_loop (x # data) s e st = extremes_loop data s e (extremes_step t q st)"
      by (simp add: extremes_loop_Cons)
    then show ?thesis using extremes_loop_keeps[OF covers_step_takes] by simp
  next
    case False
    then have mem: "(t, q) \<in> set data" using Cons.prems(2) by simp
    then have "t' \<le> t" using Cons.prems(1) x by force
    then have "t' \<le> e" using Cons.prems(4) by (rule order_trans)
    then have "\<not> e < t'" by (simp add: not_less)
    then show ?thesis
      unfolding x extremes_loop_Cons
      using Cons.IH[OF srt mem Cons.prems(3,4)] by simp
  qed
qed

lemma daily_extremes_inclusive:
  assumes "sorted (map fst data)" "(t, q) \<in> set data" "s \<le> t" "t \<le> e"
  shows "\<exists>r\<in>set (get_daily_extremes data s e).
           ex_date r = date_of t \<and> ex_min r \<le> q \<and> q \<le> ex_max r"
proof -
  have "s \<le> e" using assms(3,4) by (rule order_trans)
  then have se: "\<not> e < s" by (simp add: not_less)
  obtain results cur where st: "extremes_loop data s e ([], None) = (results, cur)"
    by (cases "extremes_loop data s e ([], None)")
  have c: "covers (results, cur) (date_of t) q"
    using extremes_loop_takes[OF assms, of "([], None)"] st by simp
  show ?thesis
  proof (cases cur)
    case None
    then show ?thesis using c st se by (auto simp: get_daily_extremes_def covers_def)
  next
    case (Some a)
    obtain cd mn mx where a: "a = (cd, mn, mx)" by (cases a)
    show ?thesis using c st se Some a by (auto simp: get_daily_extremes_def covers_def)
  qed
qed

lemma find_q_same_before:
  assumes "list_all2 (\<lambda>x y. fst x = fst y \<and> (fst x < e \<longrightarrow> snd x = snd y)) data data'"
    and "a < e"
  shows "find_q data a prev = find_q data' a prev"
  using assms
proof (induction data data' arbitrary: prev rule: list_all2_induct)
  case Nil
  then show ?case by simp
next
  case (Cons x xs y ys)
  obtain t q where x: "x = (t, q)" by (cases x)
  obtain t' q' where y: "y = (t', q')" by (cases y)
  have tt: "t' = t" using Cons.hyps(1) x y by simp
  show ?case
  proof (cases "a < t")
    case True
    then show ?thesis using x y tt by simp
  next
    case False
    then have "t < e" using Cons.prems by simp
    then have "q' = q" using Cons.hyps(1) x y by simp
    then show ?thesis using x y tt False Cons.IH[OF Cons.prems] by simp
  qed
qed

lemma accumulate_same_before:
  assumes "list_all2 (\<lambda>x y. fst x = fst y \<and> (fst x < e \<longrightarrow> snd x = snd y)) data data'"
    and "b \<le> e"
  shows "accumulate data b pt pq tot = accumulate data' b pt pq tot"
  using assms
proof (induction data data' arbitrary: pt pq tot rule: list_all2_induct)
  case Nil
  then show ?case by simp
next
  case (Cons x xs y ys)
  obtain t q where x: "x = (t, q)" by (cases x)
  obtain t' q' where y: "y = (t', q')" by (cases y)
  have tt: "t' = t" using Cons.hyps(1) x y by simp
  show ?case
  proof (cases "t \<le> pt \<or> b \<le> t")
    case True
    then show ?thesis using x y tt Cons.IH[OF Cons.prems] by auto
  next
    case False
    then have "t < b" by (simp only: not_le de_Morgan_disj)
    then have "t < e" using Cons.prems by (rule less_le_trans)
    then have "q' = q" using Cons.hyps(1) x y by simp
    then show ?thesis using x y tt False Cons.IH[OF Cons.prems] by simp
  qed
qed

lemma calculate_volume_same_before:
  assumes "same_before e data data'" "s \<le> e"
  shows "calculate_volume data s e = calculate_volume data' s e"
proof (cases "data = [] \<or> s = e")
  case True
  then show ?thesis using assms(1) by (auto simp: calculate_volume_def same_before_def)
next
  case False
  then have ne: "data \<noteq> []" and se: "s < e" using assms(2) by auto
  note r = assms(1)[unfolded same_before_def]
  have ne': "data' \<noteq> []" using r ne by auto
  have fs: "map fst data = map fst data'"
    using r by (induction data data' rule: list_all2_induct) auto
  have h: "fst (hd data) = fst (hd data')" using fs ne ne' by (metis hd_map)
  have l: "fst (last data) = fst (last data')" using fs ne ne' by (metis last_map)
  let ?a = "max s (fst (hd data))" and ?b = "min e (fst (last data))"
  show ?thesis
  proof (cases "?b \<le> ?a")
    case True
    then show ?thesis
      using calculate_volume_ordered[OF ne se] calculate_volume_ordered[OF ne' se] h l by simp
  next
    case False
    then have "?a < ?b" by (simp only: not_le)
    moreover have "?b \<le> e" by simp
    ultimately have "?a < e" by (rule less_le_trans)
    then have f: "find_q data ?a None = find_q data' ?a None"
      using find_q_same_before[OF r] by blast
    have "?b \<le> e" by simp
    then have acc: "accumulate data ?b pt pq 0 = accumulate data' ?b pt pq 0" for pt pq
      using accumulate_same_before[OF r] by blast
    show ?thesis
      using calculate_volume_ordered[OF ne se] calculate_volume_ordered[OF ne' se] h l f acc
      by (simp split: option.split)
  qed
qed


text \<open>
  C4. For a series sorted by timestamp and an interval with \<open>start \<le> end\<close>: a
  sample whose timestamp is exactly \<open>end\<close> is taken by the daily-extremes scan, its
  value lying between the minimum and the maximum reported for its day; and the
  volume does not depend on the value of any sample at or beyond \<open>end\<close>: changing
  those values leaves it unchanged, only their timestamps count.
\<close>

theorem end_inclusive_scan_exclusive_volume:
  assumes "sorted (map fst data)" "start_time \<le> end_time" "same_before end_time data data'"
  shows "(\<forall>q. (end_time, q) \<in> set data \<longrightarrow>
            (\<exists>r\<in>set (get_daily_extremes data start_time end_time).
               ex_date r = date_of end_time \<and> ex_min r \<le> q \<and> q \<le> ex_max r)) \<and>
         calculate_volume data start_time end_time = calculate_volume data' start_time end_time"
  using daily_extremes_inclusive[OF assms(1) _ assms(2) order_refl]
    calculate_volume_same_before[OF assms(3,2)]
  by blast

theorem end_inclusive_scan_exclusive_volume_witness:
  "sorted (map fst plain_series) \<and> Datetime 2000 1 1 0 0 0 0 \<le> Datetime 2000 1 1 0 5 0 0 \<and>
   same_before (Datetime 2000 1 1 0 5 0 0) plain_series altered_series \<and>
   (Datetime 2000 1 1 0 5 0 0, 20) \<in> set plain_series \<and>
   get_daily_extremes plain_series (Datetime 2000 1 1 0 0 0 0) (Datetime 2000 1 1 0 5 0 0) =
     [\<lparr>ex_date = Date 2000 1 1, ex_min = 10, ex_max = 20\<rparr>] \<and>
   calculate_volume plain_series (Datetime 2000 1 1 0 0 0 0) (Datetime 2000 1 1 0 5 0 0) = 3000 \<and>
   calculate_volume altered_series (Datetime 2000 1 1 0 0 0 0) (Datetime 2000 1 1 0 5 0 0) = 3000"
  using end_inclusive_scan_exclusive_volume[of plain_series "Datetime 2000 1 1 0 0 0 0"
      "Datetime 2000 1 1 0 5 0 0" altered_series]
  by (simp add: plain_series_def altered_series_def same_before_def get_daily_extremes_def
      date_of_def calculate_volume_def dt_eval)

section \<open>Instants in calendar order are in order of time\<close>

lemma div_step:
  fixes y k :: int
  assumes "0 < k"
  shows "y div k = (y - 1) div k + (if y mod k = 0 then 1 else 0)"
proof (cases "y mod k = 0")
  case True
  then have "y = k * (y div k)" by (simp add: mod_eq_0_iff_dvd)
  then have "y - 1 = k * (y div k - 1) + (k - 1)" by (simp add: algebra_simps)
  moreover have "0 \<le> k - 1" "k - 1 < k" using assms by simp_all
  ultimately have "(y - 1) div k = y div k - 1" by (rule int_div_pos_eq)
  then show ?thesis using True by simp
next
  case False
  have "y = k * (y div k) + y mod k" by simp
  then have e: "y - 1 = k * (y div k) + (y mod k - 1)" by simp
  have "0 \<le> y mod k" "y mod k < k" using assms by simp_all
  then have "0 \<le> y mod k - 1" "y mod k - 1 < k" using False by simp_all
  with e have "(y - 1) div k = y div k" by (rule int_div_pos_eq)
  then show ?thesis using False by simp
qed

lemma mod_100_4: "(y::int) mod 100 = 0 \<Longrightarrow> y mod 4 = 0"
proof -
  assume "y mod 100 = 0"
  then have "100 dvd y" by (simp add: mod_eq_0_iff_dvd)
  moreover have "(4::int) dvd 100" by simp
  ultimately have "4 dvd y" by (rule dvd_trans[rotated])
  then show ?thesis by (simp add: mod_eq_0_iff_dvd)
qed

lemma mod_400_100: "(y::int) mod 400 = 0 \<Longrightarrow> y mod 100 = 0"
proof -
  assume "y mod 400 = 0"
  then have "400 dvd y" by (simp add: mod_eq_0_iff_dvd)
  moreover have "(100::int) dvd 400" by simp
  ultimately have "100 dvd y" by (rule dvd_trans[rotated])
  then show ?thesis by (simp add: mod_eq_0_iff_dvd)
qed

lemma days_before_year_step:
  "days_before_year (y + 1) = days_before_year y + 365 + (if is_leap y then 1 else 0)"
proof -
  define A B C where "A = y div 4" and "B = y div 100" and "C = y div 400"
  define A' B' C' where "A' = (y - 1) div 4" and "B' = (y - 1) div 100" and "C' = (y - 1) div 400"
  have a: "A = A' + (if y mod 4 = 0 then 1 else 0)"
    unfolding A_def A'_def by (rule div_step) simp
  have b: "B = B' + (if y mod 100 = 0 then 1 else 0)"
    unfolding B_def B'_def by (rule div_step) simp
  have c: "C = C' + (if y mod 400 = 0 then 1 else 0)"
    unfolding C_def C'_def by (rule div_step) simp
  have d: "days_before_year (y + 1) = y * 365 + A - B + C"
    unfolding A_def B_def C_def by (simp add: days_before_year_def)
  have e: "days_before_year y = (y - 1) * 365 + A' - B' + C'"
    unfolding A'_def B'_def C'_def by (simp add: days_before_year_def)
  show ?thesis
  proof (cases "y mod 4 = 0")
    case False
    then have "y mod 100 \<noteq> 0" using mod_100_4[of y] by auto
    then have "y mod 400 \<noteq> 0" using mod_400_100[of y] by auto
    show ?thesis using False \<open>y mod 100 \<noteq> 0\<close> \<open>y mod 400 \<noteq> 0\<close> a b c d e
      by (simp add: is_leap_def)
  next
    case m4: True
    show ?thesis
    proof (cases "y mod 100 = 0")
      case False
      then have "y mod 400 \<noteq> 0" using mod_400_100[of y] by auto
      then show ?thesis using m4 False a b c d e by (simp add: is_leap_def)
    next
      case m100: True
      show ?thesis
      proof (cases "y mod 400 = 0")
        case False
        then show ?thesis using m4 m100 a b c d e by (simp add: is_leap_def)
      next
        case True
        then show ?thesis using m4 m100 a b c d e by (simp add: is_leap_def)
      qed
    qed
  qed
qed

lemma days_before_year_mono: "y \<le> y' \<Longrightarrow> days_before_year y \<le> days_before_year y'"
proof (induction y' rule: int_ge_induct)
  case base
  then show ?case by simp
next
  case (step i)
  then show ?case using days_before_year_step[of i] by (simp split: if_splits)
qed

lemma days_before_month_step:
  assumes "1 \<le> m" "m \<le> 11"
  shows "days_before_month y (m + 1) = days_before_month y m + days_in_month y m"
proof -
  have "m = 1 \<or> m = 2 \<or> m = 3 \<or> m = 4 \<or> m = 5 \<or> m = 6 \<or> m = 7 \<or> m = 8 \<or> m = 9 \<or> m = 10 \<or> m = 11"
    using assms by arith
  then show ?thesis
    by (elim disjE) (simp_all add: days_before_month_def days_in_month_def)
qed

lemma days_in_month_pos: "0 < days_in_month y m"
  by (simp add: days_in_month_def)

lemma days_before_month_mono:
  "m \<le> m' \<Longrightarrow> 1 \<le> m \<Longrightarrow> m' \<le> 12 \<Longrightarrow> days_before_month y m \<le> days_before_month y m'"
proof (induction m' rule: int_ge_induct)
  case base
  then show ?case by simp
next
  case (step i)
  have "days_before_month y (i + 1) = days_before_month y i + days_in_month y i"
    using step.hyps step.prems by (intro days_before_month_step) simp_all
  moreover have "days_before_month y m \<le> days_before_month y i" using step by simp
  ultimately show ?case using days_in_month_pos[of y i] by simp
qed

lemma days_before_month_12: "days_before_month y 12 + 31 = 365 + (if is_leap y then 1 else 0)"
  by (simp add: days_before_month_def)

lemma days_before_month_nonneg: "1 \<le> m \<Longrightarrow> m \<le> 12 \<Longrightarrow> 0 \<le> days_before_month y m"
  using days_before_month_mono[of 1 m y] by (simp add: days_before_month_def)

lemma ymd2ord_strict_mono:
  assumes v: "1 \<le> m" "m \<le> 12" "1 \<le> d" "d \<le> days_in_month y m"
    and v': "1 \<le> m'" "m' \<le> 12" "1 \<le> d'" "d' \<le> days_in_month y' m'"
    and lt: "(y, m, d) < (y', m', d')"
  shows "ymd2ord y m d < ymd2ord y' m' d'"
proof -
  have "y < y' \<or> (y = y' \<and> (m < m' \<or> (m = m' \<and> d < d')))"
    using lt by (simp add: less_prod_def) arith
  then consider "y < y'" | "y = y'" "m < m'" | "y = y'" "m = m'" "d < d'"
    by blast
  then show ?thesis
  proof cases
    case 1
    have "days_before_month y m + days_in_month y m \<le> 365 + (if is_leap y then 1 else 0)"
    proof (cases "m = 12")
      case True
      then show ?thesis using days_before_month_12[of y] by (simp add: days_in_month_def)
    next
      case False
      then have "days_before_month y m + days_in_month y m = days_before_month y (m + 1)"
        using v by (simp add: days_before_month_step)
      also have "\<dots> \<le> days_before_month y 12"
        using v False by (intro days_before_month_mono) simp_all
      finally show ?thesis using days_before_month_12[of y] by simp
    qed
    then have "ymd2ord y m d \<le> days_before_year (y + 1)"
      using v(4) days_before_year_step[of y] by (simp add: ymd2ord_def)
    also have "\<dots> \<le> days_before_year y'" using 1 by (intro days_before_year_mono) simp
    also have "\<dots> < ymd2ord y' m' d'"
      using days_before_month_nonneg[OF v'(1,2), of y'] v'(3) by (simp add: ymd2ord_def)
    finally show ?thesis .
  next
    case 2
    have "days_before_month y m + days_in_month y m = days_before_month y (m + 1)"
      using v 2 v' by (simp add: days_before_month_step)
    also have "\<dots> \<le> days_before_month y m'"
      using v 2 v' by (intro days_before_month_mono) simp_all
    finally show ?thesis using 2 v(4) v'(3) by (simp add: ymd2ord_def)
  next
    case 3
    then show ?thesis by (simp add: ymd2ord_def)
  qed
qed


lemma time_of_day_strict_mono:
  fixes H M S u H' M' S' u' :: int
  assumes "0 \<le> M" "M < 60" "0 \<le> S" "S < 60" "0 \<le> u" "u < 1000000"
    and "0 \<le> M'" "M' < 60" "0 \<le> S'" "S' < 60" "0 \<le> u'" "u' < 1000000"
    and "(H, M, S, u) < (H', M', S', u')"
  shows "H * 3600000000 + M * 60000000 + S * 1000000 + u
           < H' * 3600000000 + M' * 60000000 + S' * 1000000 + u'"
proof -
  have "H < H' \<or> (H = H' \<and> (M < M' \<or> (M = M' \<and> (S < S' \<or> (S = S' \<and> u < u')))))"
    using assms(13) by (simp add: less_prod_def) arith
  then consider "H < H'" | "H = H'" "M < M'" | "H = H'" "M = M'" "S < S'"
    | "H = H'" "M = M'" "S = S'" "u < u'" by blast
  then show ?thesis
  proof cases
    case 1
    then show ?thesis using assms(1-12) by linarith
  next
    case 2
    then show ?thesis using assms(1-12) by linarith
  next
    case 3
    then show ?thesis using assms(1-12) by linarith
  next
    case 4
    then show ?thesis by linarith
  qed
qed

lemma valid_time_bounds:
  assumes "valid_datetime a"
  shows "0 \<le> hour a" "hour a < 24" "0 \<le> minute a" "minute a < 60" "0 \<le> second a"
    "second a < 60" "0 \<le> microsecond a" "microsecond a < 1000000"
  using assms by (simp_all add: valid_datetime_def)

lemma valid_date_bounds:
  assumes "valid_datetime a"
  shows "1 \<le> month a" "month a \<le> 12" "1 \<le> day a" "day a \<le> days_in_month (year a) (month a)"
  using assms by (simp_all add: valid_datetime_def)

lemma to_us_strict_mono:
  assumes "valid_datetime a" "valid_datetime b" "a < b"
  shows "to_us a < to_us b"
proof -
  let ?oa = "ymd2ord (year a) (month a) (day a)" and ?ob = "ymd2ord (year b) (month b) (day b)"
  let ?ta = "hour a * 3600000000 + minute a * 60000000 + second a * 1000000 + microsecond a"
  let ?tb = "hour b * 3600000000 + minute b * 60000000 + second b * 1000000 + microsecond b"
  have ua: "to_us a = ?oa * 86400000000 + ?ta" by (simp add: to_us_def algebra_simps)
  have ub: "to_us b = ?ob * 86400000000 + ?tb" by (simp add: to_us_def algebra_simps)
  have ra: "0 \<le> ?ta" "?ta < 86400000000" using valid_time_bounds[OF assms(1)] by linarith+
  have rb: "0 \<le> ?tb" "?tb < 86400000000" using valid_time_bounds[OF assms(2)] by linarith+
  have "dt_tuple a < dt_tuple b" using assms(3) by (simp add: less_datetime_def)
  then have "(year a, month a, day a) < (year b, month b, day b) \<or>
     (year a = year b \<and> month a = month b \<and> day a = day b \<and>
      (hour a, minute a, second a, microsecond a) < (hour b, minute b, second b, microsecond b))"
    unfolding dt_tuple_def by (simp add: less_prod_def) arith
  then show ?thesis
  proof
    assume "(year a, month a, day a) < (year b, month b, day b)"
    then have "?oa < ?ob"
      using valid_date_bounds[OF assms(1)] valid_date_bounds[OF assms(2)]
      by (intro ymd2ord_strict_mono) simp_all
    then show ?thesis using ua ub ra rb by linarith
  next
    assume eq: "year a = year b \<and> month a = month b \<and> day a = day b \<and>
      (hour a, minute a, second a, microsecond a) < (hour b, minute b, second b, microsecond b)"
    then have "?ta < ?tb"
      using valid_time_bounds[OF assms(1)] valid_time_bounds[OF assms(2)]
      by (intro time_of_day_strict_mono) simp_all
    moreover have "?oa = ?ob" using eq by simp
    ultimately show ?thesis using ua ub by linarith
  qed
qed

lemma to_us_mono: "valid_datetime a \<Longrightarrow> valid_datetime b \<Longrightarrow> a \<le> b \<Longrightarrow> to_us a \<le> to_us b"
  using to_us_strict_mono[of a b] by (cases "a = b") (auto simp: le_less)

lemma total_seconds_nonneg:
  "valid_datetime a \<Longrightarrow> valid_datetime b \<Longrightarrow> a \<le> b \<Longrightarrow> 0 \<le> total_seconds (dt_sub b a)"
  using to_us_mono[of a b] by (simp add: total_seconds_def dt_sub_def)


section \<open>The volume is never negative\<close>

lemma accumulate_nonneg:
  assumes "\<forall>x\<in>set data. valid_datetime (fst x) \<and> 0 \<le> snd x"
    and "valid_datetime e" "valid_datetime pt" "0 \<le> pq" "pt \<le> e" "0 \<le> tot"
  shows "0 \<le> accumulate data e pt pq tot"
  using assms
proof (induction data arbitrary: pt pq tot)
  case Nil
  then show ?case by simp
next
  case (Cons x data)
  obtain t q where x: "x = (t, q)" by (cases x)
  have vt: "valid_datetime t" and q: "0 \<le> q" using Cons.prems(1) x by auto
  have rest: "\<forall>x\<in>set data. valid_datetime (fst x) \<and> 0 \<le> snd x" using Cons.prems(1) by simp
  show ?case
  proof (cases "t \<le> pt")
    case True
    then show ?thesis using x Cons.IH[OF rest Cons.prems(2-6)] by simp
  next
    case False
    then have pt_t: "pt \<le> t" by simp
    show ?thesis
    proof (cases "e \<le> t")
      case True
      have "0 \<le> pq * total_seconds (dt_sub e pt)"
        using total_seconds_nonneg[OF Cons.prems(3,2,5)] Cons.prems(4) by simp
      then show ?thesis using x False True Cons.prems(6) by simp
    next
      case nb: False
      then have "t \<le> e" by simp
      moreover have "0 \<le> tot + pq * total_seconds (dt_sub t pt)"
        using total_seconds_nonneg[OF Cons.prems(3) vt pt_t] Cons.prems(4,6) by simp
      ultimately have "0 \<le> accumulate data e t q (tot + pq * total_seconds (dt_sub t pt))"
        using Cons.IH[OF rest Cons.prems(2) vt q] by blast
      then show ?thesis using x False nb by simp
    qed
  qed
qed

lemma find_q_result:
  "find_q data a prev = Some (pt, pq) \<Longrightarrow>
     ((pt, pq) \<in> set data \<and> pt \<le> a) \<or> prev = Some (pt, pq)"
proof (induction data arbitrary: prev)
  case Nil
  then show ?case by simp
next
  case (Cons x data)
  obtain t q where x: "x = (t, q)" by (cases x)
  show ?case
  proof (cases "a < t")
    case True
    then show ?thesis using Cons.prems x by simp
  next
    case False
    then have "find_q data a (Some (t, q)) = Some (pt, pq)" using Cons.prems x by simp
    then have "((pt, pq) \<in> set data \<and> pt \<le> a) \<or> Some (t, q) = Some (pt, pq)"
      using Cons.IH by blast
    then show ?thesis using x False by auto
  qed
qed

lemma calculate_volume_ordered_nonneg:
  assumes v: "\<forall>x\<in>set data. valid_datetime (fst x) \<and> 0 \<le> snd x"
    and vs: "valid_datetime s" and ve: "valid_datetime e" and se: "s < e" and ne: "data \<noteq> []"
  shows "0 \<le> calculate_volume data s e"
proof -
  let ?a = "max s (fst (hd data))" and ?b = "min e (fst (last data))"
  have vh: "valid_datetime (fst (hd data))" and vl: "valid_datetime (fst (last data))"
    using v ne by simp_all
  have va: "valid_datetime ?a" using vs vh by (simp add: max_def)
  have vb: "valid_datetime ?b" using ve vl by (simp add: min_def)
  show ?thesis
  proof (cases "e \<le> fst (hd data) \<or> fst (last data) \<le> s \<or> ?b \<le> ?a")
    case True
    then show ?thesis using calculate_volume_ordered[OF ne se] by auto
  next
    case False
    then have "\<not> ?b \<le> ?a" by blast
    then have "?a < ?b" by (simp only: not_le)
    then have ab: "?a \<le> ?b" by (rule less_imp_le)
    show ?thesis
    proof (cases "find_q data ?a None")
      case None
      then show ?thesis using calculate_volume_ordered[OF ne se] False by simp
    next
      case (Some p)
      obtain pt pq where p: "p = (pt, pq)" by (cases p)
      have mem: "(pt, pq) \<in> set data" and le: "pt \<le> ?a"
        using find_q_result[of data ?a None pt pq] Some p by auto
      have m: "max pt ?a = ?a" using le by (simp add: max_def)
      have "0 \<le> pq" using v mem by auto
      then have "0 \<le> accumulate data ?b ?a pq 0"
        using accumulate_nonneg[OF v vb va _ ab] by simp
      then show ?thesis using calculate_volume_ordered[OF ne se] False Some p m by simp
    qed
  qed
qed

lemma normalize_None_volume:
  "normalize data s e = None \<Longrightarrow> calculate_volume data s e = 0"
  unfolding normalize_def calculate_volume_def
  by (auto simp: Let_def max_def min_def split: if_splits)

text \<open>
  C8. For every series of non-negative values and every pair of instants, the volume
  is a real number \<open>\<ge> 0\<close>, and it is exactly 0 when the interval normalises to
  Empty. (The instants are Python datetimes, so within the calendar.)
\<close>

theorem volume_nonneg:
  assumes "\<forall>x\<in>set data. valid_datetime (fst x) \<and> 0 \<le> snd x"
    and "valid_datetime start_time" "valid_datetime end_time"
  shows "0 \<le> calculate_volume data start_time end_time \<and>
         (normalize data start_time end_time = None \<longrightarrow>
            calculate_volume data start_time end_time = 0)"
proof -
  have "0 \<le> calculate_volume data start_time end_time"
  proof (cases "data = [] \<or> start_time = end_time")
    case True
    then show ?thesis by (auto simp: calculate_volume_def)
  next
    case False
    then consider "start_time < end_time" | "end_time < start_time" by fastforce
    then show ?thesis
    proof cases
      case 1
      then show ?thesis using calculate_volume_ordered_nonneg[OF assms 1] False by simp
    next
      case 2
      then show ?thesis
        using calculate_volume_ordered_nonneg[OF assms(1,3,2) 2] False
          calculate_volume_swap[of data start_time end_time] by simp
    qed
  qed
  then show ?thesis using normalize_None_volume by blast
qed

theorem volume_nonneg_witness:
  "list_all (\<lambda>x. valid_datetime (fst x) \<and> 0 \<le> snd x) plain_series \<and>
   valid_datetime (Datetime 2000 1 1 0 9 0 0) \<and> valid_datetime (Datetime 2000 1 1 0 1 0 0) \<and>
   valid_datetime (Datetime 1999 6 1 0 0 0 0) \<and> valid_datetime (Datetime 1999 1 1 0 0 0 0) \<and>
   calculate_volume plain_series (Datetime 2000 1 1 0 9 0 0) (Datetime 2000 1 1 0 1 0 0) = 7200 \<and>
   normalize plain_series (Datetime 1999 6 1 0 0 0 0) (Datetime 1999 1 1 0 0 0 0) = None \<and>
   calculate_volume plain_series (Datetime 1999 6 1 0 0 0 0) (Datetime 1999 1 1 0 0 0 0) = 0"
  using volume_nonneg[of plain_series "Datetime 2000 1 1 0 9 0 0" "Datetime 2000 1 1 0 1 0 0"]
    volume_nonneg[of plain_series "Datetime 1999 6 1 0 0 0 0" "Datetime 1999 1 1 0 0 0 0"]
  by (simp add: plain_series_def valid_datetime_def days_in_month_def normalize_def
      calculate_volume_def dt_eval)


section \<open>The split into hydrologic years\<close>

lemma dt_le_year_month:
  "a \<le> b \<Longrightarrow> year a < year b \<or> (year a = year b \<and> month a \<le> month b)"
  by (auto simp: less_eq_datetime_def dt_tuple_def less_eq_prod_def)

lemma hydro_year_mono: "a \<le> b \<Longrightarrow> hydro_year a \<le> hydro_year b"
  using dt_le_year_month[of a b] by (auto simp: hydro_year_def)

lemma hydro_start_less_end: "hydro_start N < hydro_end N"
  by (simp add: hydro_start_def hydro_end_def Datetime_less_iff)

lemma hydro_start_le:
  assumes "valid_datetime t"
  shows "hydro_start (hydro_year t) \<le> t"
proof (cases t)
  case (Datetime y m d H M S u)
  have b: "1 \<le> m" "1 \<le> d" "0 \<le> H" "0 \<le> M" "0 \<le> S" "0 \<le> u"
    using assms Datetime by (simp_all add: valid_datetime_def)
  show ?thesis
  proof (cases "m \<le> 10")
    case True
    then show ?thesis
      using Datetime by (simp add: hydro_start_def hydro_year_def Datetime_le_iff)
  next
    case False
    then have m: "11 \<le> m" by simp
    have "(11::int, 1::int, 0::int, 0::int, 0::int, 0::int) \<le> (m, d, H, M, S, u)"
      using m b by (simp add: less_eq_prod_def)
    then show ?thesis
      using Datetime False by (simp add: hydro_start_def hydro_year_def Datetime_le_iff)
  qed
qed

lemma hydro_year_in_bounds:
  assumes "hydro_start N \<le> t" "t \<le> hydro_end N"
  shows "hydro_year t = N"
proof (cases t)
  case (Datetime y m d H M S u)
  have 1: "N - 1 < y \<or> (N - 1 = y \<and> 11 \<le> m)"
    using assms(1) Datetime dt_le_year_month[of "hydro_start N" t]
    by (simp add: hydro_start_def)
  have 2: "y < N \<or> (y = N \<and> m \<le> 10)"
    using assms(2) Datetime dt_le_year_month[of t "hydro_end N"]
    by (simp add: hydro_end_def)
  show ?thesis using 1 2 Datetime by (auto simp: hydro_year_def)
qed

lemma mk_hydro_start:
  "2 \<le> N \<Longrightarrow> N \<le> 9999 \<Longrightarrow> mk_datetime (N - 1) 11 1 0 0 0 0 = Inr (hydro_start N)"
  by (simp add: mk_datetime_def valid_datetime_def days_in_month_def hydro_start_def)

lemma mk_hydro_end:
  "2 \<le> N \<Longrightarrow> N \<le> 9999 \<Longrightarrow> mk_datetime N 10 31 23 59 59 0 = Inr (hydro_end N)"
  by (simp add: mk_datetime_def valid_datetime_def days_in_month_def hydro_end_def)

lemma hydro_loop_eq:
  "\<forall>y\<in>set ys. 2 \<le> y \<and> y \<le> 9999 \<Longrightarrow>
     hydro_loop data s e ys acc =
       Inr (acc @ map (hydro_result data s e) (filter (hydro_overlap s e) ys))"
proof (induction ys arbitrary: acc)
  case Nil
  then show ?case by simp
next
  case (Cons y ys)
  have y: "2 \<le> y" "y \<le> 9999" using Cons.prems by simp_all
  have rest: "\<forall>y\<in>set ys. 2 \<le> y \<and> y \<le> 9999" using Cons.prems by simp
  show ?case
  proof (cases "hydro_overlap s e y")
    case True
    then have "\<not> min e (hydro_end y) \<le> max s (hydro_start y)"
      unfolding hydro_overlap_def by (simp only: not_le)
    then show ?thesis
      using True Cons.IH[OF rest] mk_hydro_start[OF y] mk_hydro_end[OF y]
      by (simp add: Let_def hydro_result_def)
  next
    case False
    then have "min e (hydro_end y) \<le> max s (hydro_start y)"
      unfolding hydro_overlap_def by (simp only: not_less)
    then show ?thesis
      using False Cons.IH[OF rest] mk_hydro_start[OF y] mk_hydro_end[OF y]
      by (simp add: Let_def)
  qed
qed


lemma compute_hydrologic_year_volumes_loop:
  "compute_hydrologic_year_volumes data s e =
     hydro_loop data (min s e) (max s e) [hydro_year (min s e)..hydro_year (max s e)] []"
  by (auto simp: compute_hydrologic_year_volumes_def Let_def min_def max_def)

lemma hydro_results_bounds:
  assumes "r \<in> set (hydro_results data lo hi)"
  shows "hydro_start (hy_year r) \<le> interval_start r \<and> interval_start r < interval_end r \<and>
         interval_end r \<le> hydro_end (hy_year r) \<and> lo \<le> interval_start r \<and>
         interval_end r \<le> hi \<and>
         volume_m3 r = calculate_volume data (interval_start r) (interval_end r)"
proof -
  obtain N where N: "hydro_overlap lo hi N" and r: "r = hydro_result data lo hi N"
    using assms by (auto simp: hydro_results_def)
  show ?thesis using N unfolding r hydro_result_def hydro_overlap_def by simp
qed

lemma covered_iff:
  assumes vt: "valid_datetime t" and lt: "lo < t" and th: "t < hi"
  shows "covered (hydro_results data lo hi) t \<longleftrightarrow> t \<le> hydro_end (hydro_year t)"
proof
  assume "covered (hydro_results data lo hi) t"
  then obtain r where r: "r \<in> set (hydro_results data lo hi)"
    and rt: "interval_start r \<le> t" "t \<le> interval_end r"
    by (auto simp: covered_def)
  note b = hydro_results_bounds[OF r]
  have "hydro_start (hy_year r) \<le> t" using b rt(1) by (meson order_trans)
  moreover have "t \<le> hydro_end (hy_year r)" using b rt(2) by (meson order_trans)
  ultimately have "hydro_year t = hy_year r" by (rule hydro_year_in_bounds)
  then show "t \<le> hydro_end (hydro_year t)" using \<open>t \<le> hydro_end (hy_year r)\<close> by simp
next
  assume le: "t \<le> hydro_end (hydro_year t)"
  let ?N = "hydro_year t"
  have st: "hydro_start ?N \<le> t" using hydro_start_le[OF vt] .
  have rng: "?N \<in> set [hydro_year lo..hydro_year hi]"
    using hydro_year_mono[of lo t] hydro_year_mono[of t hi] lt th by simp
  have up: "t \<le> min hi (hydro_end ?N)" using le th by simp
  have lw: "max lo (hydro_start ?N) \<le> t" using st lt by simp
  have ov: "hydro_overlap lo hi ?N"
  proof (cases "hydro_start ?N = t")
    case True
    then have "t < hydro_end ?N" using hydro_start_less_end[of ?N] by simp
    then have "t < min hi (hydro_end ?N)" using th by simp
    then show ?thesis unfolding hydro_overlap_def using lw by (rule le_less_trans[rotated])
  next
    case False
    then have "hydro_start ?N < t" using st by simp
    then have "max lo (hydro_start ?N) < t" using lt by simp
    then show ?thesis unfolding hydro_overlap_def using up by (rule less_le_trans)
  qed
  have "hydro_result data lo hi ?N \<in> set (hydro_results data lo hi)"
    using rng ov by (simp add: hydro_results_def)
  moreover have "interval_start (hydro_result data lo hi ?N) \<le> t"
    "t \<le> interval_end (hydro_result data lo hi ?N)"
    using lw up by (simp_all add: hydro_result_def)
  ultimately show "covered (hydro_results data lo hi) t" unfolding covered_def by blast
qed

text \<open>
  Outside the years 2..9999 one of the two \<open>datetime(...)\<close> calls raises, and the
  function ends with \<open>ValueError\<close>.
\<close>

lemma mk_hydro_out_of_calendar:
  assumes "\<not> (2 \<le> N \<and> N \<le> 9999)"
  shows "mk_datetime (N - 1) 11 1 0 0 0 0 = Inl ValueError \<or>
         mk_datetime N 10 31 23 59 59 0 = Inl ValueError"
  using assms by (auto simp: mk_datetime_def valid_datetime_def)

lemma hydro_loop_value_error:
  "\<exists>y\<in>set ys. \<not> (2 \<le> y \<and> y \<le> 9999) \<Longrightarrow> hydro_loop data s e ys acc = Inl ValueError"
proof (induction ys arbitrary: acc)
  case Nil
  then show ?case by simp
next
  case (Cons y ys)
  show ?case
  proof (cases "2 \<le> y \<and> y \<le> 9999")
    case True
    then have "\<exists>y\<in>set ys. \<not> (2 \<le> y \<and> y \<le> 9999)" using Cons.prems by auto
    then have "hydro_loop data s e ys acc' = Inl ValueError" for acc'
      using Cons.IH by blast
    then show ?thesis
      using True mk_hydro_start[of y] mk_hydro_end[of y] by (simp add: Let_def)
  next
    case False
    then show ?thesis
      using mk_hydro_out_of_calendar[OF False]
      by (auto simp: mk_datetime_def split: sum.splits if_splits)
  qed
qed

lemma compute_hydrologic_year_volumes_value_error:
  assumes "hydro_year (min s e) < 2 \<or> 9999 < hydro_year (max s e)"
  shows "compute_hydrologic_year_volumes data s e = Inl ValueError"
proof -
  let ?lo = "min s e" and ?hi = "max s e"
  have "?lo \<le> ?hi" by (simp add: min_le_iff_disj)
  then have "hydro_year ?lo \<le> hydro_year ?hi" by (rule hydro_year_mono)
  then have "hydro_year ?lo \<in> set [hydro_year ?lo..hydro_year ?hi]"
    "hydro_year ?hi \<in> set [hydro_year ?lo..hydro_year ?hi]" by simp_all
  then have "\<exists>y\<in>set [hydro_year ?lo..hydro_year ?hi]. \<not> (2 \<le> y \<and> y \<le> 9999)"
    using assms by (metis not_less)
  then show ?thesis
    unfolding compute_hydrologic_year_volumes_loop by (rule hydro_loop_value_error)
qed

lemmas hydro_eval = compute_hydrologic_year_volumes_def mk_datetime_def valid_datetime_def
  days_in_month_def hydro_year_def Let_def calculate_volume_def


text \<open>
  C1, as the spec has it, fails on the code: the bounds of consecutive hydrologic years,
  31 Oct \<open>N\<close> 23:59:59 and 01 Nov \<open>N\<close> 00:00:00, leave one second between them, which
  no emitted interval contains. For the request 01 Nov 1975 to 01 Jan 1977 the two
  emitted intervals miss the instant 31 Oct 1976 23:59:59.5, and their volumes add up to
  36892799, one second of flow less than the volume 36892800 of the whole request.
\<close>

theorem hydrologic_gap_counterexample:
  "long_series \<noteq> [] \<and>
   compute_hydrologic_year_volumes long_series (Datetime 1975 11 1 0 0 0 0) (Datetime 1977 1 1 0 0 0 0) =
     Inr [\<lparr>hy_year = 1976, interval_start = Datetime 1975 11 1 0 0 0 0,
            interval_end = Datetime 1976 10 31 23 59 59 0, volume_m3 = 31622399\<rparr>,
          \<lparr>hy_year = 1977, interval_start = Datetime 1976 11 1 0 0 0 0,
            interval_end = Datetime 1977 1 1 0 0 0 0, volume_m3 = 5270400\<rparr>] \<and>
   Datetime 1975 11 1 0 0 0 0 \<le> Datetime 1976 10 31 23 59 59 500000 \<and>
   Datetime 1976 10 31 23 59 59 500000 \<le> Datetime 1977 1 1 0 0 0 0 \<and>
   \<not> covered
       [\<lparr>hy_year = 1976, interval_start = Datetime 1975 11 1 0 0 0 0,
          interval_end = Datetime 1976 10 31 23 59 59 0, volume_m3 = 31622399\<rparr>,
        \<lparr>hy_year = 1977, interval_start = Datetime 1976 11 1 0 0 0 0,
          interval_end = Datetime 1977 1 1 0 0 0 0, volume_m3 = 5270400\<rparr>]
       (Datetime 1976 10 31 23 59 59 500000) \<and>
   calculate_volume long_series (Datetime 1975 11 1 0 0 0 0) (Datetime 1977 1 1 0 0 0 0) = 36892800"
  by (simp add: long_series_def hydro_eval covered_def dt_eval)



text \<open>
  C1, amended. For every series and every requested interval, put in order as
  \<open>lo \<le> hi\<close> by swapping if needed, whose hydrologic years lie in 2..9999 (the years
  for which the two \<open>datetime(...)\<close> calls do not raise): the splitter returns, in
  ascending year order, exactly one result for each hydrologic year \<open>N\<close> from that of
  \<open>lo\<close> to that of \<open>hi\<close> whose intersection
  \<open>[max(lo, 01 Nov (N-1) 00:00), min(hi, 31 Oct N 23:59:59)]\<close> has its start before
  its end, with that intersection as interval and its volume. No emitted interval
  extends outside the bounds of its hydrologic year or outside \<open>[lo, hi]\<close>. An instant
  strictly between \<open>lo\<close> and \<open>hi\<close> lies in an emitted interval exactly when it is
  not after 31 Oct 23:59:59 of its own hydrologic year: the union of the emitted
  intervals leaves out the second before each 01 Nov 00:00.
\<close>

theorem hydrologic_split:
  assumes "lo = min start_time end_time" "hi = max start_time end_time"
    and "2 \<le> hydro_year lo" "hydro_year hi \<le> 9999"
  shows "compute_hydrologic_year_volumes data start_time end_time = Inr (hydro_results data lo hi) \<and>
         map hy_year (hydro_results data lo hi) =
           filter (hydro_overlap lo hi) [hydro_year lo..hydro_year hi] \<and>
         (\<forall>r\<in>set (hydro_results data lo hi).
            hydro_start (hy_year r) \<le> interval_start r \<and> interval_start r < interval_end r \<and>
            interval_end r \<le> hydro_end (hy_year r) \<and> lo \<le> interval_start r \<and>
            interval_end r \<le> hi \<and>
            volume_m3 r = calculate_volume data (interval_start r) (interval_end r)) \<and>
         (\<forall>t. valid_datetime t \<and> lo < t \<and> t < hi \<longrightarrow>
            (covered (hydro_results data lo hi) t \<longleftrightarrow> t \<le> hydro_end (hydro_year t)))"
proof -
  have rng: "\<forall>y\<in>set [hydro_year lo..hydro_year hi]. 2 \<le> y \<and> y \<le> 9999"
    using assms(3,4) by simp
  have 1: "compute_hydrologic_year_volumes data start_time end_time = Inr (hydro_results data lo hi)"
    unfolding compute_hydrologic_year_volumes_loop assms(1,2)[symmetric]
    using hydro_loop_eq[OF rng, of data lo hi "[]"] by (simp add: hydro_results_def)
  have 2: "map hy_year (hydro_results data lo hi) =
           filter (hydro_overlap lo hi) [hydro_year lo..hydro_year hi]"
    by (simp add: hydro_results_def hydro_result_def comp_def)
  show ?thesis using 1 2 hydro_results_bounds covered_iff by blast
qed


theorem hydrologic_split_witness:
  "Datetime 1975 11 1 0 0 0 0 = min (Datetime 1977 1 1 0 0 0 0) (Datetime 1975 11 1 0 0 0 0) \<and>
   Datetime 1977 1 1 0 0 0 0 = max (Datetime 1977 1 1 0 0 0 0) (Datetime 1975 11 1 0 0 0 0) \<and>
   2 \<le> hydro_year (Datetime 1975 11 1 0 0 0 0) \<and> hydro_year (Datetime 1977 1 1 0 0 0 0) \<le> 9999 \<and>
   compute_hydrologic_year_volumes long_series (Datetime 1977 1 1 0 0 0 0) (Datetime 1975 11 1 0 0 0 0) =
     Inr [\<lparr>hy_year = 1976, interval_start = Datetime 1975 11 1 0 0 0 0,
            interval_end = Datetime 1976 10 31 23 59 59 0, volume_m3 = 31622399\<rparr>,
          \<lparr>hy_year = 1977, interval_start = Datetime 1976 11 1 0 0 0 0,
            interval_end = Datetime 1977 1 1 0 0 0 0, volume_m3 = 5270400\<rparr>] \<and>
   valid_datetime (Datetime 1976 3 1 12 0 0 0) \<and>
   Datetime 1975 11 1 0 0 0 0 < Datetime 1976 3 1 12 0 0 0 \<and>
   Datetime 1976 3 1 12 0 0 0 < Datetime 1977 1 1 0 0 0 0 \<and>
   Datetime 1976 3 1 12 0 0 0 \<le> hydro_end (hydro_year (Datetime 1976 3 1 12 0 0 0)) \<and>
   covered (hydro_results long_series (Datetime 1975 11 1 0 0 0 0) (Datetime 1977 1 1 0 0 0 0))
     (Datetime 1976 3 1 12 0 0 0)"
proof -
  have h: "Datetime 1975 11 1 0 0 0 0 = min (Datetime 1977 1 1 0 0 0 0) (Datetime 1975 11 1 0 0 0 0)"
    "Datetime 1977 1 1 0 0 0 0 = max (Datetime 1977 1 1 0 0 0 0) (Datetime 1975 11 1 0 0 0 0)"
    "2 \<le> hydro_year (Datetime 1975 11 1 0 0 0 0)" "hydro_year (Datetime 1977 1 1 0 0 0 0) \<le> 9999"
    by (simp_all add: min_def max_def Datetime_le_iff hydro_year_def)
  note t = hydrologic_split[OF h, of long_series]
  have v: "valid_datetime (Datetime 1976 3 1 12 0 0 0)"
    "Datetime 1975 11 1 0 0 0 0 < Datetime 1976 3 1 12 0 0 0"
    "Datetime 1976 3 1 12 0 0 0 < Datetime 1977 1 1 0 0 0 0"
    "Datetime 1976 3 1 12 0 0 0 \<le> hydro_end (hydro_year (Datetime 1976 3 1 12 0 0 0))"
    by (simp_all add: valid_datetime_def days_in_month_def is_leap_def Datetime_less_iff
        Datetime_le_iff hydro_end_def hydro_year_def)
  have c: "covered (hydro_results long_series (Datetime 1975 11 1 0 0 0 0) (Datetime 1977 1 1 0 0 0 0))
     (Datetime 1976 3 1 12 0 0 0)"
    using t v by blast
  have r: "compute_hydrologic_year_volumes long_series (Datetime 1977 1 1 0 0 0 0) (Datetime 1975 11 1 0 0 0 0) =
     Inr [\<lparr>hy_year = 1976, interval_start = Datetime 1975 11 1 0 0 0 0,
            interval_end = Datetime 1976 10 31 23 59 59 0, volume_m3 = 31622399\<rparr>,
          \<lparr>hy_year = 1977, interval_start = Datetime 1976 11 1 0 0 0 0,
            interval_end = Datetime 1977 1 1 0 0 0 0, volume_m3 = 5270400\<rparr>]"
    by (simp add: long_series_def hydro_eval dt_eval)
  show ?thesis using h v c r by simp
qed


end
